theory Spec2Isabelle
  imports Main "HOL-Library.AList" "HOL-Library.Sublist"
begin

section \<open>Folder synchronisation: a model of main.py\<close>

text \<open>
  The program mirrors a \<open>source\<close> directory into a \<open>replica\<close> directory. One pass of
  \<open>replicate_source\<close> walks the source top-down (creating directories, copying new and
  newer files) and then walks the replica bottom-up (removing what the source lacks).

  The model keeps the program's own view of the world: paths are strings that the code
  concatenates and rewrites, the filesystem is one shared store that both walks read and
  write, every raising library call is a branch that returns an error, and the two
  \<open>os.walk\<close> generators list a directory only when they reach it.
\<close>

subsection \<open>Path strings\<close>

text \<open>\<open>str.split('/')\<close>: the pieces of a path string between separators.\<close>

fun split_sep :: "string \<Rightarrow> string list" where
  "split_sep [] = [[]]"
| "split_sep (c # cs) =
     (if c = CHR ''/'' then [] # split_sep cs
      else (case split_sep cs of [] \<Rightarrow> [[c]] | w # ws \<Rightarrow> (c # w) # ws))"

type_synonym path = "string list"

text \<open>
  The entry a path string names: its components from the root of the modelled tree, with
  empty components and \<open>.\<close> dropped, as the kernel resolves them. The working directory is
  the root of the modelled tree, so \<open>a/b\<close> and \<open>/a/b\<close> name the same entry. The component
  \<open>..\<close> is not interpreted: the model is meant for path strings without it.
\<close>

definition components :: "string \<Rightarrow> path" where
  "components s = filter (\<lambda>w. w \<noteq> [] \<and> w \<noteq> ''.'') (split_sep s)"

text \<open>\<open>os.path.join(a, b)\<close> of posixpath.\<close>

definition path_join :: "string \<Rightarrow> string \<Rightarrow> string" where
  "path_join a b =
     (if b \<noteq> [] \<and> hd b = CHR ''/'' then b
      else if a = [] \<or> last a = CHR ''/'' then a @ b
      else a @ CHR ''/'' # b)"

text \<open>\<open>os.path.basename(p)\<close>: what follows the last separator.\<close>

definition basename :: "string \<Rightarrow> string" where
  "basename p = rev (takeWhile (\<lambda>c. c \<noteq> CHR ''/'') (rev p))"

text \<open>
  \<open>s.replace(old, new, 1)\<close>: the leftmost occurrence of \<open>old\<close> in \<open>s\<close> is replaced by
  \<open>new\<close>; \<open>s\<close> is returned as it is when \<open>old\<close> does not occur. The empty \<open>old\<close> occurs
  at position 0.
\<close>

fun replace_first :: "string \<Rightarrow> string \<Rightarrow> string \<Rightarrow> string" where
  "replace_first old new [] = (if old = [] then new else [])"
| "replace_first old new (c # cs) =
     (if prefix old (c # cs) then new @ drop (length old) (c # cs)
      else c # replace_first old new cs)"


subsection \<open>The filesystem\<close>

text \<open>
  A regular file has a modification time and a content. A directory has a modification
  time too (\<open>os.path.getmtime\<close> reads it when the replica holds a directory where the source
  holds a file); the model sets it when the directory is made and does not advance it when
  the listing changes. Modification times are integers (the value \<open>getmtime\<close> compares).
  There are no symbolic links, permissions or special files.

  The store lists every entry below the root with its full component path. The order of
  the list is the order in which \<open>os.scandir\<close> yields the entries.
\<close>

datatype node = RegFile int string | Directory int

fun is_dir_node :: "node \<Rightarrow> bool" where
  "is_dir_node (Directory t) = True"
| "is_dir_node (RegFile t c) = False"

type_synonym filesystem = "(path \<times> node) list"

definition node_at :: "filesystem \<Rightarrow> path \<Rightarrow> node option" where
  "node_at fs p = (if p = [] then Some (Directory 0) else map_of fs p)"

text \<open>\<open>os.stat\<close> on a path string; the empty string names nothing.\<close>

definition stat :: "filesystem \<Rightarrow> string \<Rightarrow> node option" where
  "stat fs s = (if s = [] then None else node_at fs (components s))"

definition path_exists :: "filesystem \<Rightarrow> string \<Rightarrow> bool" where
  "path_exists fs s = (stat fs s \<noteq> None)"

definition isdir :: "filesystem \<Rightarrow> string \<Rightarrow> bool" where
  "isdir fs s = (case stat fs s of Some (Directory t) \<Rightarrow> True | _ \<Rightarrow> False)"

text \<open>\<open>pathlib.Path(s).exists()\<close>: pathlib reads the empty string as the working directory.\<close>

definition Path_exists :: "filesystem \<Rightarrow> string \<Rightarrow> bool" where
  "Path_exists fs s = (node_at fs (components s) \<noteq> None)"

datatype error =
    FileExistsError | FileNotFoundError | NotADirectoryError | IsADirectoryError
  | SameFileError | OSError

definition getmtime :: "filesystem \<Rightarrow> string \<Rightarrow> error + int" where
  "getmtime fs s =
     (case stat fs s of
        None \<Rightarrow> Inl FileNotFoundError
      | Some (RegFile t c) \<Rightarrow> Inr t
      | Some (Directory t) \<Rightarrow> Inr t)"

text \<open>
  The listing \<open>os.walk\<close> takes of one directory: the names of its subdirectories and of its
  other entries, in \<open>scandir\<close> order. \<open>None\<close> is the \<open>OSError\<close> of \<open>scandir\<close>, which
  \<open>os.walk\<close> swallows (no \<open>onerror\<close> is given).
\<close>

definition children :: "filesystem \<Rightarrow> path \<Rightarrow> (string \<times> node) list" where
  "children fs p = map (\<lambda>(q, n). (last q, n)) (filter (\<lambda>(q, n). q \<noteq> [] \<and> butlast q = p) fs)"

definition scandir :: "filesystem \<Rightarrow> string \<Rightarrow> (string list \<times> string list) option" where
  "scandir fs d =
     (if isdir fs d
      then Some (map fst (filter (\<lambda>(name, n). is_dir_node n) (children fs (components d))),
                 map fst (filter (\<lambda>(name, n). \<not> is_dir_node n) (children fs (components d))))
      else None)"

text \<open>\<open>os.mkdir\<close>; the new directory is stamped with the current time \<open>now\<close>.\<close>

definition mkdir :: "int \<Rightarrow> filesystem \<Rightarrow> path \<Rightarrow> error + filesystem" where
  "mkdir now fs p =
     (if node_at fs p \<noteq> None then Inl FileExistsError
      else (case node_at fs (butlast p) of
              None \<Rightarrow> Inl FileNotFoundError
            | Some (RegFile t c) \<Rightarrow> Inl NotADirectoryError
            | Some (Directory t) \<Rightarrow> Inr (AList.update p (Directory now) fs)))"

text \<open>
  \<open>os.makedirs(name)\<close> with \<open>exist_ok=False\<close>: make the missing parent first (swallowing its
  \<open>FileExistsError\<close>), then \<open>mkdir\<close> the directory itself.
\<close>

function makedirs :: "int \<Rightarrow> filesystem \<Rightarrow> path \<Rightarrow> error + filesystem" where
  "makedirs now fs p =
     (if p = [] then Inl FileExistsError
      else if butlast p \<noteq> [] \<and> node_at fs (butlast p) = None
      then (case makedirs now fs (butlast p) of
              Inl e \<Rightarrow> (if e = FileExistsError then mkdir now fs p else Inl e)
            | Inr fs' \<Rightarrow> mkdir now fs' p)
      else mkdir now fs p)"
  by pat_completeness auto
termination
  by (relation "measure (\<lambda>(now, fs, p). length p)") auto

declare makedirs.simps [simp del]

text \<open>
  \<open>shutil.copyfile\<close> followed by \<open>copystat\<close>: the source is opened for reading, then the
  target for writing (created in its parent directory when absent); content and
  modification time are those of the source afterwards.
\<close>

definition copyfile :: "filesystem \<Rightarrow> string \<Rightarrow> string \<Rightarrow> error + filesystem" where
  "copyfile fs src dst =
     (if components src = components dst then Inl SameFileError
      else (case stat fs src of
              None \<Rightarrow> Inl FileNotFoundError
            | Some (Directory t) \<Rightarrow> Inl IsADirectoryError
            | Some (RegFile t c) \<Rightarrow>
                (case stat fs dst of
                   Some (Directory t') \<Rightarrow> Inl IsADirectoryError
                 | Some (RegFile t' c') \<Rightarrow> Inr (AList.update (components dst) (RegFile t c) fs)
                 | None \<Rightarrow>
                     (if dst = [] then Inl FileNotFoundError
                      else (case node_at fs (butlast (components dst)) of
                              None \<Rightarrow> Inl FileNotFoundError
                            | Some (RegFile t' c') \<Rightarrow> Inl NotADirectoryError
                            | Some (Directory t') \<Rightarrow>
                                Inr (AList.update (components dst) (RegFile t c) fs))))))"

text \<open>\<open>shutil.copy2(src, dst)\<close>: a directory as target means the file of that name inside it.\<close>

definition copy2 :: "filesystem \<Rightarrow> string \<Rightarrow> string \<Rightarrow> error + filesystem" where
  "copy2 fs src dst =
     copyfile fs src (if isdir fs dst then path_join dst (basename src) else dst)"

text \<open>\<open>os.remove\<close>.\<close>

definition os_remove :: "filesystem \<Rightarrow> string \<Rightarrow> error + filesystem" where
  "os_remove fs s =
     (case stat fs s of
        None \<Rightarrow> Inl FileNotFoundError
      | Some (Directory t) \<Rightarrow> Inl IsADirectoryError
      | Some (RegFile t c) \<Rightarrow> Inr (AList.delete (components s) fs))"

text \<open>
  \<open>shutil.rmtree\<close>: the directory and everything below it. Removing the root of the
  modelled tree itself is refused.
\<close>

definition rmtree :: "filesystem \<Rightarrow> string \<Rightarrow> error + filesystem" where
  "rmtree fs s =
     (case stat fs s of
        None \<Rightarrow> Inl FileNotFoundError
      | Some (RegFile t c) \<Rightarrow> Inl NotADirectoryError
      | Some (Directory t) \<Rightarrow>
          (if components s = [] then Inl OSError
           else Inr (filter (\<lambda>(q, n). \<not> prefix (components s) q) fs)))"

subsection \<open>Program state and the action reporter\<close>

text \<open>
  The five actions of a pass, each with the path string the program logs.
\<close>

datatype action =
    CreatedDir string | CreatedFile string | UpdatedFile string
  | DeletedFile string | DeletedDir string

text \<open>
  \<open>disk\<close> is the filesystem; \<open>logfile\<close> holds the records the logging handler has written
  and \<open>console\<close> the lines printed to standard output; \<open>log_open\<close> tells whether
  \<open>logging.basicConfig\<close> has installed the file handler (without it, records of level INFO
  are dropped). \<open>now\<close> renders the clock at its \<open>n\<close>-th reading and \<open>clock\<close> counts the
  readings. \<open>actions\<close> and \<open>passes\<close> are bookkeeping of the model: the actions applied so
  far, in order, and the number of passes begun. The log sink lies outside the modelled
  directories.
\<close>

record state =
  disk :: filesystem
  logfile :: "string list"
  console :: "string list"
  log_open :: bool
  now :: "nat \<Rightarrow> string"
  clock :: nat
  actions :: "action list"
  passes :: nat

datatype outcome = Done state | Raised error state

fun action_text :: "action \<Rightarrow> string" where
  "action_text (CreatedDir p) = ''Created directory: '' @ p"
| "action_text (CreatedFile p) = ''Created file: '' @ p"
| "action_text (UpdatedFile p) = ''Updated file: '' @ p"
| "action_text (DeletedFile p) = ''Deleted file: '' @ p"
| "action_text (DeletedDir p) = ''Deleted directory: '' @ p"

text \<open>
  \<open>logging.info("[%s] <text>", datetime.now(), path)\<close> under the format
  \<open>%(asctime)s - %(levelname)s - %(message)s\<close>: the argument is read from the clock first,
  then the record is made and stamped.
\<close>

definition logging_info :: "action \<Rightarrow> state \<Rightarrow> state" where
  "logging_info a st =
     (let t0 = now st (clock st); t1 = now st (clock st + 1)
      in st\<lparr>logfile := (if log_open st
                         then logfile st @ [t1 @ '' - INFO - '' @ ''['' @ t0 @ ''] '' @ action_text a]
                         else logfile st),
            clock := clock st + 2\<rparr>)"

text \<open>
  \<open>print(f"[{datetime.now()}] <text>")\<close>; the line for a created directory is written
  with two closing brackets in the source (line 62).
\<close>

fun console_bracket :: "action \<Rightarrow> string" where
  "console_bracket (CreatedDir p) = '']] ''"
| "console_bracket a = ''] ''"

definition print_action :: "action \<Rightarrow> state \<Rightarrow> state" where
  "print_action a st =
     st\<lparr>console := console st @ [''['' @ now st (clock st) @ console_bracket a @ action_text a],
        clock := clock st + 1\<rparr>"

definition report :: "action \<Rightarrow> state \<Rightarrow> state" where
  "report a st = (print_action a (logging_info a st))\<lparr>actions := actions st @ [a]\<rparr>"

definition print_line :: "string \<Rightarrow> state \<Rightarrow> state" where
  "print_line s st = st\<lparr>console := console st @ [s]\<rparr>"

text \<open>A filesystem call applied to the state: an error leaves the state as it was.\<close>

definition apply_fs :: "(filesystem \<Rightarrow> error + filesystem) \<Rightarrow> action \<Rightarrow> state \<Rightarrow> outcome" where
  "apply_fs f a st =
     (case f (disk st) of
        Inl e \<Rightarrow> Raised e st
      | Inr fs' \<Rightarrow> Done (report a (st\<lparr>disk := fs'\<rparr>)))"

text \<open>\<open>for x in xs: body\<close>, left by the first exception.\<close>

fun for_each :: "('a \<Rightarrow> state \<Rightarrow> outcome) \<Rightarrow> 'a list \<Rightarrow> state \<Rightarrow> outcome" where
  "for_each body [] st = Done st"
| "for_each body (x # xs) st =
     (case body x st of
        Raised e st' \<Rightarrow> Raised e st'
      | Done st' \<Rightarrow> for_each body xs st')"

text \<open>
  The same loop over subdirectories that are walked in turn; \<open>None\<close> is a walk that has
  used up its depth bound.
\<close>

fun walk_each :: "('a \<Rightarrow> state \<Rightarrow> outcome option) \<Rightarrow> 'a list \<Rightarrow> state \<Rightarrow> outcome option" where
  "walk_each w [] st = Some (Done st)"
| "walk_each w (x # xs) st =
     (case w x st of
        None \<Rightarrow> None
      | Some (Raised e st') \<Rightarrow> Some (Raised e st')
      | Some (Done st') \<Rightarrow> walk_each w xs st')"

subsection \<open>The propagate loop (lines 57 to 75)\<close>

text \<open>Lines 64 to 75: one file of the directory \<open>root\<close>.\<close>

definition sync_file :: "string \<Rightarrow> string \<Rightarrow> string \<Rightarrow> state \<Rightarrow> outcome" where
  "sync_file root replica_path file st =
     (let source_file = path_join root file;
          replica_file = path_join replica_path file
      in if \<not> path_exists (disk st) replica_file
         then apply_fs (\<lambda>fs. copy2 fs source_file replica_file) (CreatedFile replica_file) st
         else (case getmtime (disk st) source_file of
                 Inl e \<Rightarrow> Raised e st
               | Inr ms \<Rightarrow>
                   (case getmtime (disk st) replica_file of
                      Inl e \<Rightarrow> Raised e st
                    | Inr mr \<Rightarrow>
                        if ms > mr
                        then apply_fs (\<lambda>fs. copy2 fs source_file replica_file)
                               (UpdatedFile replica_file) st
                        else Done st)))"

text \<open>Lines 58 to 75: the body of the loop for one triple that \<open>os.walk\<close> yields.\<close>

definition visit_source ::
  "string \<Rightarrow> string \<Rightarrow> string \<Rightarrow> string list \<Rightarrow> state \<Rightarrow> outcome" where
  "visit_source source replica root files st =
     (let replica_path = replace_first source replica root
      in (case (if \<not> path_exists (disk st) replica_path
                then apply_fs (\<lambda>fs. makedirs (int (clock st)) fs (components replica_path))
                       (CreatedDir replica_path) st
                else Done st) of
            Raised e st' \<Rightarrow> Raised e st'
          | Done st' \<Rightarrow> for_each (sync_file root replica_path) files st'))"

text \<open>
  \<open>for root, dirs, files in os.walk(source)\<close>: the directory is listed, the body runs on
  the listing, and then each listed subdirectory is walked, listed only when the walk gets
  there. The first argument bounds the depth of the walk.
\<close>

fun walk_source :: "nat \<Rightarrow> string \<Rightarrow> string \<Rightarrow> string \<Rightarrow> state \<Rightarrow> outcome option" where
  "walk_source 0 source replica root st = None"
| "walk_source (Suc n) source replica root st =
     (case scandir (disk st) root of
        None \<Rightarrow> Some (Done st)
      | Some (dirs, files) \<Rightarrow>
          (case visit_source source replica root files st of
             Raised e st' \<Rightarrow> Some (Raised e st')
           | Done st' \<Rightarrow>
               walk_each (\<lambda>d. walk_source n source replica (path_join root d)) dirs st'))"

subsection \<open>The prune loop (lines 78 to 97)\<close>

definition prune_file :: "string \<Rightarrow> string \<Rightarrow> string \<Rightarrow> state \<Rightarrow> outcome" where
  "prune_file root source_path file st =
     (let replica_file = path_join root file;
          source_file = path_join source_path file
      in if \<not> path_exists (disk st) source_file
         then apply_fs (\<lambda>fs. os_remove fs replica_file) (DeletedFile replica_file) st
         else Done st)"

definition prune_dir :: "string \<Rightarrow> string \<Rightarrow> string \<Rightarrow> state \<Rightarrow> outcome" where
  "prune_dir root source_path directory st =
     (let replica_dir = path_join root directory;
          source_dir = path_join source_path directory
      in if \<not> path_exists (disk st) source_dir
         then apply_fs (\<lambda>fs. rmtree fs replica_dir) (DeletedDir replica_dir) st
         else Done st)"

definition visit_replica ::
  "string \<Rightarrow> string \<Rightarrow> string \<Rightarrow> string list \<Rightarrow> string list \<Rightarrow> state \<Rightarrow> outcome" where
  "visit_replica source replica root dirs files st =
     (let source_path = replace_first replica source root
      in (case for_each (prune_file root source_path) files st of
            Raised e st' \<Rightarrow> Raised e st'
          | Done st' \<Rightarrow> for_each (prune_dir root source_path) dirs st'))"

text \<open>
  \<open>os.walk(replica, topdown=False)\<close>: the directory is listed first, its subdirectories are
  walked, and the body runs last, on the listing taken before.
\<close>

fun walk_replica :: "nat \<Rightarrow> string \<Rightarrow> string \<Rightarrow> string \<Rightarrow> state \<Rightarrow> outcome option" where
  "walk_replica 0 source replica root st = None"
| "walk_replica (Suc n) source replica root st =
     (case scandir (disk st) root of
        None \<Rightarrow> Some (Done st)
      | Some (dirs, files) \<Rightarrow>
          (case walk_each (\<lambda>d. walk_replica n source replica (path_join root d)) dirs st of
             None \<Rightarrow> None
           | Some (Raised e st') \<Rightarrow> Some (Raised e st')
           | Some (Done st') \<Rightarrow> Some (visit_replica source replica root dirs files st')))"

subsection \<open>One pass, the driver and main\<close>

definition propagate :: "nat \<Rightarrow> string \<Rightarrow> string \<Rightarrow> state \<Rightarrow> outcome option" where
  "propagate n source replica st = walk_source n source replica source st"

definition prune :: "nat \<Rightarrow> string \<Rightarrow> string \<Rightarrow> state \<Rightarrow> outcome option" where
  "prune n source replica st = walk_replica n source replica replica st"

text \<open>Lines 57 to 97: one pass.\<close>

definition replicate_pass :: "nat \<Rightarrow> string \<Rightarrow> string \<Rightarrow> state \<Rightarrow> outcome option" where
  "replicate_pass n source replica st =
     (case propagate n source replica (st\<lparr>passes := passes st + 1\<rparr>) of
        None \<Rightarrow> None
      | Some (Raised e st') \<Rightarrow> Some (Raised e st')
      | Some (Done st') \<Rightarrow> prune n source replica st')"

text \<open>
  \<open>replicate_source\<close>: a pass, the sleep, and the function again. \<open>ticks\<close> is the number of
  sleeps that end before the interrupt arrives in the next one; the interrupt is caught
  and the notice printed. Any other exception leaves the program.
\<close>

fun replicate_source :: "nat \<Rightarrow> nat \<Rightarrow> string \<Rightarrow> string \<Rightarrow> state \<Rightarrow> outcome option" where
  "replicate_source n 0 source replica st =
     (case replicate_pass n source replica st of
        None \<Rightarrow> None
      | Some (Raised e st') \<Rightarrow> Some (Raised e st')
      | Some (Done st') \<Rightarrow> Some (Done (print_line ''Stopping synchronization...'' st')))"
| "replicate_source n (Suc ticks) source replica st =
     (case replicate_pass n source replica st of
        None \<Rightarrow> None
      | Some (Raised e st') \<Rightarrow> Some (Raised e st')
      | Some (Done st') \<Rightarrow> replicate_source n ticks source replica st')"

text \<open>
  \<open>logging.basicConfig(filename=...)\<close>: the handler opens the log file for appending, which
  creates it when it is absent.
\<close>

definition basicConfig :: "string \<Rightarrow> state \<Rightarrow> outcome" where
  "basicConfig filename st =
     (case stat (disk st) filename of
        Some (Directory t) \<Rightarrow> Raised IsADirectoryError st
      | Some (RegFile t c) \<Rightarrow> Done (st\<lparr>log_open := True\<rparr>)
      | None \<Rightarrow>
          (case node_at (disk st) (butlast (components filename)) of
             None \<Rightarrow> Raised FileNotFoundError st
           | Some (RegFile t c) \<Rightarrow> Raised NotADirectoryError st
           | Some (Directory t) \<Rightarrow>
               Done (st\<lparr>disk := AList.update (components filename)
                                 (RegFile (int (clock st)) []) (disk st),
                        log_open := True\<rparr>)))"

text \<open>Lines 128 to 141 of \<open>main\<close>, on the parsed arguments.\<close>

definition main :: "nat \<Rightarrow> nat \<Rightarrow> string \<Rightarrow> string \<Rightarrow> string \<Rightarrow> state \<Rightarrow> outcome option" where
  "main n ticks source replica log_file st =
     (if \<not> Path_exists (disk st) source
      then Some (Done (print_line ''The source directory path does not exist'' st))
      else if \<not> Path_exists (disk st) replica
      then Some (Done (print_line ''The replica directory path does not exist'' st))
      else if \<not> Path_exists (disk st) log_file
      then Some (Done (print_line ''The log file path does not exist'' st))
      else (case basicConfig (path_join log_file ''Log'') st of
              Raised e st' \<Rightarrow> Some (Raised e st')
            | Done st' \<Rightarrow> replicate_source n ticks source replica st'))"

subsection \<open>Auxiliary definitions for the statements\<close>

text \<open>The state an outcome ends in, whether the pass returned or raised.\<close>

fun final :: "outcome \<Rightarrow> state" where
  "final (Done st) = st"
| "final (Raised e st) = st"

text \<open>A fresh process on a given filesystem: nothing printed or logged yet.\<close>

definition fresh :: "filesystem \<Rightarrow> state" where
  "fresh fs = \<lparr>disk = fs, logfile = [], console = [], log_open = True,
                now = (\<lambda>n. ''T''), clock = 0, actions = [], passes = 0\<rparr>"

text \<open>Sample filesystems for the statements below.\<close>

definition fs_newer :: filesystem where
  "fs_newer = [([''s''], Directory 0), ([''s'', ''f''], RegFile 2 ''new''),
               ([''r''], Directory 0), ([''r'', ''f''], RegFile 1 ''old'')]"

text \<open>What a run is observed by: the error raised (if any), the filesystem, the actions
  and the log records at its end.\<close>

fun observe :: "outcome option \<Rightarrow> (error option \<times> filesystem \<times> action list \<times> string list) option" where
  "observe None = None"
| "observe (Some (Done st)) = Some (None, disk st, actions st, logfile st)"
| "observe (Some (Raised e st)) = Some (Some e, disk st, actions st, logfile st)"

definition fs_replica_slash :: filesystem where
  "fs_replica_slash = [([''s''], Directory 0), ([''r''], Directory 0),
                       ([''s'', ''d''], Directory 0), ([''s'', ''d'', ''f''], RegFile 1 ''x'')]"

definition fs_sibling :: filesystem where
  "fs_sibling = [([''ab''], Directory 0), ([''a''], Directory 0),
                 ([''ab'', ''b''], Directory 0), ([''ab'', ''b'', ''f''], RegFile 1 ''x'')]"

definition fs_source_slash :: filesystem where
  "fs_source_slash = [([''s''], Directory 0), ([''r''], Directory 0),
                      ([''s'', ''d''], Directory 0), ([''s'', ''d'', ''f''], RegFile 9 ''new''),
                      ([''r'', ''d''], Directory 0), ([''r'', ''d'', ''f''], RegFile 1 ''old'')]"

definition fs_tie :: filesystem where
  "fs_tie = [([''s''], Directory 0), ([''s'', ''f''], RegFile 5 ''new''),
             ([''r''], Directory 0), ([''r'', ''f''], RegFile 5 ''old'')]"


definition fs_new_file :: filesystem where
  "fs_new_file = [([''s''], Directory 0), ([''r''], Directory 0), ([''s'', ''x''], RegFile 1 ''c'')]"

definition fs_stale :: filesystem where
  "fs_stale = [([''src''], Directory 0), ([''dst''], Directory 0),
               ([''src'', ''a''], Directory 0), ([''src'', ''a'', ''x''], RegFile 7 ''new''),
               ([''dst'', ''a''], Directory 0), ([''dst'', ''a'', ''x''], RegFile 3 ''old'')]"

text \<open>What a run leaves behind for its user: the error raised (if any), the filesystem, the
  log records and the console lines.\<close>

fun observe_out :: "outcome option \<Rightarrow> (error option \<times> filesystem \<times> string list \<times> string list) option" where
  "observe_out None = None"
| "observe_out (Some (Done st)) = Some (None, disk st, logfile st, console st)"
| "observe_out (Some (Raised e st)) = Some (Some e, disk st, logfile st, console st)"

text \<open>
  For the statements about the reporter: the log record and the console line of an action
  whose reporting begins at clock reading \<open>c\<close> (the message argument is stamped at \<open>c\<close>,
  the record at \<open>c + 1\<close>, the console line at \<open>c + 2\<close>), the lines of a sequence of
  actions reported one after the other, and the relation between the state at the start of a
  pass and a later state of it.
\<close>

definition log_record :: "(nat \<Rightarrow> string) \<Rightarrow> nat \<Rightarrow> action \<Rightarrow> string" where
  "log_record nw c a = nw (c + 1) @ '' - INFO - '' @ ''['' @ nw c @ ''] '' @ action_text a"

definition console_line :: "(nat \<Rightarrow> string) \<Rightarrow> nat \<Rightarrow> action \<Rightarrow> string" where
  "console_line nw c a = ''['' @ nw (c + 2) @ console_bracket a @ action_text a"

fun rendered :: "(nat \<Rightarrow> action \<Rightarrow> string) \<Rightarrow> nat \<Rightarrow> action list \<Rightarrow> string list" where
  "rendered f c [] = []"
| "rendered f c (a # as) = f c a # rendered f (c + 3) as"

definition extends :: "state \<Rightarrow> state \<Rightarrow> bool" where
  "extends st0 st = (\<exists>new. actions st = actions st0 @ new
      \<and> logfile st = logfile st0 @ rendered (log_record (now st0)) (clock st0) new
      \<and> console st = console st0 @ rendered (console_line (now st0)) (clock st0) new
      \<and> clock st = clock st0 + 3 * length new
      \<and> now st = now st0 \<and> log_open st
      \<and> (new = [] \<longrightarrow> disk st = disk st0))"

text \<open>
  A store is a tree when every entry has a name and lies in a directory of the store.
  \<open>wf_fs\<close> checks it entry by entry; \<open>tree_shaped\<close> says it of every path that is looked up.
\<close>

definition wf_fs :: "filesystem \<Rightarrow> bool" where
  "wf_fs fs = list_all (\<lambda>(q, n). q \<noteq> [] \<and> (case node_at fs (butlast q) of
                                              Some (Directory t) \<Rightarrow> True | _ \<Rightarrow> False)) fs"

definition tree_shaped :: "filesystem \<Rightarrow> bool" where
  "tree_shaped fs = (\<forall>q n. map_of fs q = Some n \<longrightarrow>
                       q \<noteq> [] \<and> (\<exists>t. node_at fs (butlast q) = Some (Directory t)))"

text \<open>
  For the statements about the order of the actions: the path of an action, the kinds of
  action, and \<open>under p q\<close> for a path \<open>q\<close> that names an entry below the entry \<open>p\<close> names.
  In \<open>creation_ordered\<close> a directory is created before anything is created or updated
  under it; in \<open>deletion_ordered\<close> a directory is deleted after every deletion under it.
  Positions in the list are the order in which the actions are applied and reported.
\<close>

fun target :: "action \<Rightarrow> string" where
  "target (CreatedDir p) = p"
| "target (CreatedFile p) = p"
| "target (UpdatedFile p) = p"
| "target (DeletedFile p) = p"
| "target (DeletedDir p) = p"

fun is_dir_creation :: "action \<Rightarrow> bool" where
  "is_dir_creation (CreatedDir p) = True"
| "is_dir_creation a = False"

fun is_creation :: "action \<Rightarrow> bool" where
  "is_creation (CreatedDir p) = True"
| "is_creation (CreatedFile p) = True"
| "is_creation (UpdatedFile p) = True"
| "is_creation a = False"

fun is_dir_deletion :: "action \<Rightarrow> bool" where
  "is_dir_deletion (DeletedDir p) = True"
| "is_dir_deletion a = False"

fun is_deletion :: "action \<Rightarrow> bool" where
  "is_deletion (DeletedFile p) = True"
| "is_deletion (DeletedDir p) = True"
| "is_deletion a = False"

definition under :: "string \<Rightarrow> string \<Rightarrow> bool" where
  "under p q = strict_prefix (components p) (components q)"

definition creation_ordered :: "action list \<Rightarrow> bool" where
  "creation_ordered acts =
     (\<forall>i<length acts. \<forall>j<length acts.
        is_dir_creation (acts ! i) \<and> is_creation (acts ! j)
          \<and> under (target (acts ! i)) (target (acts ! j)) \<longrightarrow> i < j)"

definition deletion_ordered :: "action list \<Rightarrow> bool" where
  "deletion_ordered acts =
     (\<forall>i<length acts. \<forall>j<length acts.
        is_dir_deletion (acts ! i) \<and> is_deletion (acts ! j)
          \<and> under (target (acts ! i)) (target (acts ! j)) \<longrightarrow> j < i)"

text \<open>
  What holds of the state \<open>s\<close> during the propagate loop and during the prune loop of a
  pass begun in \<open>st0\<close>.
\<close>

definition propagating :: "state \<Rightarrow> state \<Rightarrow> bool" where
  "propagating st0 s =
     (tree_shaped (disk s)
      \<and> (\<exists>new. actions s = actions st0 @ new \<and> creation_ordered new
             \<and> (\<forall>a\<in>set new. is_creation a
                    \<and> node_at (disk s) (components (target a)) \<noteq> None)))"

definition pruning :: "state \<Rightarrow> state \<Rightarrow> bool" where
  "pruning st0 s =
     (\<exists>new. actions s = actions st0 @ new \<and> creation_ordered new \<and> deletion_ordered new
        \<and> (\<forall>a\<in>set new. is_dir_deletion a \<longrightarrow>
               (\<forall>q. prefix (components (target a)) q \<longrightarrow> node_at (disk s) q = None)))"

text \<open>
  Nested directories \<open>p/q/r\<close> with one file that only the source has, beside a directory
  \<open>a\<close> with one file that only the replica has; and the replica's part alone.
\<close>

definition fs_scenario :: filesystem where
  "fs_scenario = [([''s''], Directory 0), ([''r''], Directory 0),
                  ([''s'', ''p''], Directory 0), ([''s'', ''p'', ''q''], Directory 0),
                  ([''s'', ''p'', ''q'', ''r''], Directory 0),
                  ([''s'', ''p'', ''q'', ''r'', ''f''], RegFile 1 ''c''),
                  ([''r'', ''a''], Directory 0), ([''r'', ''a'', ''b.txt''], RegFile 1 ''z'')]"

definition fs_scenario_A :: filesystem where
  "fs_scenario_A = [([''s''], Directory 0), ([''r''], Directory 0),
                    ([''r'', ''a''], Directory 0), ([''r'', ''a'', ''b.txt''], RegFile 1 ''z'')]"

definition fs_kind :: filesystem where
  "fs_kind = [([''s''], Directory 0), ([''r''], Directory 0),
              ([''s'', ''d''], RegFile 1 ''x''), ([''r'', ''d''], Directory 5)]"

(*PROPERTIES*)

section \<open>Properties\<close>

subsection \<open>Path strings\<close>





lemma components_empty: "components [] = []"
  by (simp add: components_def)





subsection \<open>Start-up validation\<close>

text \<open>
  Claim C7. When one of the three configured paths (source, replica, log directory) does
  not exist, \<open>main\<close> prints the message of the first missing one and returns: no pass is
  begun, nothing is logged, and the filesystem is as before, so no log file has been
  created. Hence a pass is begun only when all three exist.
\<close>

theorem main_path_validation:
  assumes "\<not> (Path_exists (disk st) source \<and> Path_exists (disk st) replica
               \<and> Path_exists (disk st) log_file)"
  shows "\<exists>msg st'. main n ticks source replica log_file st = Some (Done st')
          \<and> msg = (if \<not> Path_exists (disk st) source
                     then ''The source directory path does not exist''
                   else if \<not> Path_exists (disk st) replica
                     then ''The replica directory path does not exist''
                   else ''The log file path does not exist'')
          \<and> console st' = console st @ [msg]
          \<and> disk st' = disk st \<and> logfile st' = logfile st \<and> log_open st' = log_open st
          \<and> passes st' = passes st \<and> actions st' = actions st"
  using assms by (auto simp: main_def print_line_def)

theorem main_path_validation_witness:
  "\<not> (Path_exists (disk (fresh [([''s''], Directory 0)])) ''s''
       \<and> Path_exists (disk (fresh [([''s''], Directory 0)])) ''r''
       \<and> Path_exists (disk (fresh [([''s''], Directory 0)])) ''logs'')
   \<and> (\<exists>st'. main 3 0 ''s'' ''r'' ''logs'' (fresh [([''s''], Directory 0)]) = Some (Done st')
          \<and> console st' = [''The replica directory path does not exist'']
          \<and> disk st' = [([''s''], Directory 0)] \<and> passes st' = 0)"
  using main_path_validation [of "fresh [([''s''], Directory 0)]" "''s''" "''r''" "''logs''" 3 0]
  by (auto simp: fresh_def Path_exists_def node_at_def components_def)

subsection \<open>The copy decision of the loop body\<close>

lemma stat_update_same:
  "s \<noteq> [] \<Longrightarrow> components s \<noteq> [] \<Longrightarrow> stat (AList.update (components s) v fs) s = Some v"
  by (simp add: stat_def node_at_def update_conv')

text \<open>
  The comparison of lines 68 to 75, on the replica path the loop body is handed: when the
  file of that name below \<open>root\<close> and below \<open>replica_path\<close> are both regular files, the
  second is overwritten with the content and modification time of the first, and
  \<open>UpdatedFile\<close> is reported, if and only if the first is strictly newer; otherwise (equal
  times included) the state is unchanged. Whether \<open>replica_path\<close> is the counterpart of
  \<open>root\<close> is decided by the rewriting of line 58, not here.
\<close>

lemma sync_file_update_iff:
  assumes src: "stat (disk st) (path_join root file) = Some (RegFile ms cs)"
      and dst: "stat (disk st) (path_join replica_path file) = Some (RegFile mr cr)"
      and ne: "components (path_join replica_path file) \<noteq> []"
  shows "\<exists>st'. sync_file root replica_path file st = Done st'
           \<and> (mr < ms \<longrightarrow> stat (disk st') (path_join replica_path file) = Some (RegFile ms cs)
                          \<and> actions st' = actions st @ [UpdatedFile (path_join replica_path file)])
           \<and> (\<not> mr < ms \<longrightarrow> st' = st)"
proof (cases "mr < ms")
  case False
  then show ?thesis using src dst
    by (simp add: sync_file_def Let_def path_exists_def getmtime_def)
next
  case True
  have dne: "path_join replica_path file \<noteq> []" using dst by (auto simp: stat_def)
  have diff: "components (path_join root file) \<noteq> components (path_join replica_path file)"
  proof
    assume "components (path_join root file) = components (path_join replica_path file)"
    then have "stat (disk st) (path_join root file) = stat (disk st) (path_join replica_path file)"
      using src dst by (auto simp: stat_def split: if_splits)
    then show False using src dst True by simp
  qed
  show ?thesis using src dst True diff dne ne
    by (simp add: sync_file_def Let_def path_exists_def getmtime_def apply_fs_def copy2_def
        isdir_def copyfile_def report_def print_action_def logging_info_def stat_update_same)
qed

lemma sync_file_update_iff_at_newer:
  "stat (disk (fresh fs_newer)) (path_join ''s'' ''f'') = Some (RegFile 2 ''new'')
   \<and> stat (disk (fresh fs_newer)) (path_join ''r'' ''f'') = Some (RegFile 1 ''old'')
   \<and> components (path_join ''r'' ''f'') \<noteq> []
   \<and> (\<exists>st'. sync_file ''s'' ''r'' ''f'' (fresh fs_newer) = Done st'
          \<and> stat (disk st') ''r/f'' = Some (RegFile 2 ''new'')
          \<and> actions st' = [UpdatedFile ''r/f''])"
  using sync_file_update_iff [of "fresh fs_newer" "''s''" "''f''" 2 "''new''" "''r''" 1 "''old''"]
  by (auto simp: fresh_def fs_newer_def stat_def node_at_def components_def path_join_def)

subsection \<open>Concrete runs\<close>

lemma observe_Done:
  "observe r = Some (None, d, a, l) \<Longrightarrow> \<exists>st. r = Some (Done st) \<and> disk st = d \<and> actions st = a \<and> logfile st = l"
  by (cases r rule: observe.cases) auto


lemma run_replica_slash:
  "(case replicate_pass 3 ''s'' ''r/'' (fresh fs_replica_slash) of
      Some (Done st1) \<Rightarrow>
        disk st1 = fs_replica_slash @ [([''r'', ''d''], Directory 0)]
        \<and> actions st1 = [CreatedDir ''r//d'', CreatedFile ''r//d/f'', DeletedFile ''r/d/f'']
        \<and> observe (replicate_pass 3 ''s'' ''r/'' st1) =
            Some (None, fs_replica_slash @ [([''r'', ''d''], Directory 0)],
                  [CreatedDir ''r//d'', CreatedFile ''r//d/f'', DeletedFile ''r/d/f'',
                   CreatedFile ''r//d/f'', DeletedFile ''r/d/f''],
                  [''T - INFO - [T] Created directory: r//d'', ''T - INFO - [T] Created file: r//d/f'',
                   ''T - INFO - [T] Deleted file: r/d/f'', ''T - INFO - [T] Created file: r//d/f'',
                   ''T - INFO - [T] Deleted file: r/d/f''])
    | _ \<Rightarrow> False)"
  by code_simp

text \<open>
  Claim C2, at the replica root written \<open>r/\<close>. The prune loop rewrites the walked path
  \<open>r/d\<close> to \<open>sd\<close>, which does not exist, so every pass deletes \<open>r/d/f\<close> and the next
  pass creates it again: the second pass over an unchanged source reports two actions.
\<close>

theorem second_pass_acts:
  "\<exists>st1 st2. replicate_pass 3 ''s'' ''r/'' (fresh fs_replica_slash) = Some (Done st1)
      \<and> replicate_pass 3 ''s'' ''r/'' st1 = Some (Done st2)
      \<and> disk st1 = fs_replica_slash @ [([''r'', ''d''], Directory 0)]
      \<and> disk st2 = disk st1
      \<and> actions st2 = actions st1 @ [CreatedFile ''r//d/f'', DeletedFile ''r/d/f'']"
proof -
  from run_replica_slash obtain st1 where
    1: "replicate_pass 3 ''s'' ''r/'' (fresh fs_replica_slash) = Some (Done st1)"
    and d1: "disk st1 = fs_replica_slash @ [([''r'', ''d''], Directory 0)]"
    and a1: "actions st1 = [CreatedDir ''r//d'', CreatedFile ''r//d/f'', DeletedFile ''r/d/f'']"
    and o: "observe (replicate_pass 3 ''s'' ''r/'' st1) =
            Some (None, fs_replica_slash @ [([''r'', ''d''], Directory 0)],
                  [CreatedDir ''r//d'', CreatedFile ''r//d/f'', DeletedFile ''r/d/f'',
                   CreatedFile ''r//d/f'', DeletedFile ''r/d/f''],
                  [''T - INFO - [T] Created directory: r//d'', ''T - INFO - [T] Created file: r//d/f'',
                   ''T - INFO - [T] Deleted file: r/d/f'', ''T - INFO - [T] Created file: r//d/f'',
                   ''T - INFO - [T] Deleted file: r/d/f''])"
    by (auto split: option.splits outcome.splits)
  from observe_Done [OF o] obtain st2 where
    "replicate_pass 3 ''s'' ''r/'' st1 = Some (Done st2)"
    "disk st2 = fs_replica_slash @ [([''r'', ''d''], Directory 0)]"
    "actions st2 = [CreatedDir ''r//d'', CreatedFile ''r//d/f'', DeletedFile ''r/d/f'',
                   CreatedFile ''r//d/f'', DeletedFile ''r/d/f'']"
    by blast
  with 1 d1 a1 show ?thesis by auto
qed

lemma run_sibling:
  "observe (replicate_pass 3 ''ab/'' ''a'' (fresh fs_sibling)) =
     Some (None, fs_sibling @ [([''ab'', ''f''], RegFile 1 ''x'')], [CreatedFile ''ab/f''],
           [''T - INFO - [T] Created file: ab/f''])"
  by code_simp

text \<open>
  Claim C5, at the source root written \<open>ab/\<close> beside the replica root \<open>a\<close>. The walked
  path \<open>ab/b\<close> is rewritten to \<open>ab\<close>, the source root itself, and the file \<open>ab/b/f\<close> is
  copied to \<open>ab/f\<close>: the pass creates an entry in the source tree.
\<close>

theorem source_gets_written:
  "\<exists>st'. replicate_pass 3 ''ab/'' ''a'' (fresh fs_sibling) = Some (Done st')
      \<and> stat (disk (fresh fs_sibling)) ''ab/f'' = None
      \<and> stat (disk st') ''ab/f'' = Some (RegFile 1 ''x'')
      \<and> actions st' = [CreatedFile ''ab/f'']"
proof -
  from observe_Done [OF run_sibling] obtain st' where
    "replicate_pass 3 ''ab/'' ''a'' (fresh fs_sibling) = Some (Done st')"
    "disk st' = fs_sibling @ [([''ab'', ''f''], RegFile 1 ''x'')]"
    "actions st' = [CreatedFile ''ab/f'']"
    by blast
  then show ?thesis
    by (auto simp: fresh_def fs_sibling_def stat_def node_at_def components_def)
qed

lemma run_source_slash:
  "observe (propagate 3 ''s/'' ''r'' (fresh fs_source_slash)) =
     Some (None, fs_source_slash @ [([''rd''], Directory 0), ([''rd'', ''f''], RegFile 9 ''new'')],
           [CreatedDir ''rd'', CreatedFile ''rd/f''],
           [''T - INFO - [T] Created directory: rd'', ''T - INFO - [T] Created file: rd/f''])"
  by code_simp

text \<open>
  Claim C10, at the source root written \<open>s/\<close>. The walked path \<open>s/d\<close> is rewritten to
  \<open>rd\<close>, so the newer \<open>s/d/f\<close> is copied to \<open>rd/f\<close> and the replica file \<open>r/d/f\<close>
  keeps its older modification time after the propagate loop.
\<close>

theorem replica_file_stays_older:
  "\<exists>st'. propagate 3 ''s/'' ''r'' (fresh fs_source_slash) = Some (Done st')
      \<and> stat (disk st') ''s/d/f'' = Some (RegFile 9 ''new'')
      \<and> stat (disk st') ''r/d/f'' = Some (RegFile 1 ''old'')
      \<and> actions st' = [CreatedDir ''rd'', CreatedFile ''rd/f'']"
proof -
  from observe_Done [OF run_source_slash] obtain st' where
    "propagate 3 ''s/'' ''r'' (fresh fs_source_slash) = Some (Done st')"
    "disk st' = fs_source_slash @ [([''rd''], Directory 0), ([''rd'', ''f''], RegFile 9 ''new'')]"
    "actions st' = [CreatedDir ''rd'', CreatedFile ''rd/f'']"
    by blast
  then show ?thesis
    by (auto simp: fs_source_slash_def stat_def node_at_def components_def)
qed

lemma observe_out_Done:
  "observe_out r = Some (None, d, l, c) \<Longrightarrow> \<exists>st. r = Some (Done st) \<and> disk st = d \<and> logfile st = l \<and> console st = c"
  by (cases r rule: observe_out.cases) auto

lemma run_stale:
  "observe_out (propagate 3 ''src/'' ''dst'' (fresh fs_stale)) =
     Some (None, fs_stale @ [([''dsta''], Directory 0), ([''dsta'', ''x''], RegFile 7 ''new'')],
           [''T - INFO - [T] Created directory: dsta'', ''T - INFO - [T] Created file: dsta/x''],
           [''[T]] Created directory: dsta'', ''[T] Created file: dsta/x''])"
  by code_simp

text \<open>
  Claim C3, at the source root written \<open>src/\<close>. The file \<open>a/x\<close> is a regular file in
  both trees and the source's modification time 7 is strictly greater than the replica's 3,
  yet the propagate loop returns without overwriting \<open>dst/a/x\<close>: the walked path
  \<open>src/a\<close> is rewritten to \<open>dsta\<close>, the copy goes to \<open>dsta/x\<close>, and neither the log nor
  the console holds an \<open>Updated file\<close> line.
\<close>

theorem newer_file_not_updated:
  "\<exists>st'. propagate 3 ''src/'' ''dst'' (fresh fs_stale) = Some (Done st')
      \<and> stat (disk (fresh fs_stale)) ''src/a/x'' = Some (RegFile 7 ''new'')
      \<and> stat (disk (fresh fs_stale)) ''dst/a/x'' = Some (RegFile 3 ''old'')
      \<and> stat (disk st') ''dst/a/x'' = Some (RegFile 3 ''old'')
      \<and> logfile st' = [''T - INFO - [T] Created directory: dsta'',
                        ''T - INFO - [T] Created file: dsta/x'']
      \<and> console st' = [''[T]] Created directory: dsta'', ''[T] Created file: dsta/x'']"
proof -
  from observe_out_Done [OF run_stale] obtain st' where
    "propagate 3 ''src/'' ''dst'' (fresh fs_stale) = Some (Done st')"
    "disk st' = fs_stale @ [([''dsta''], Directory 0), ([''dsta'', ''x''], RegFile 7 ''new'')]"
    "logfile st' = [''T - INFO - [T] Created directory: dsta'', ''T - INFO - [T] Created file: dsta/x'']"
    "console st' = [''[T]] Created directory: dsta'', ''[T] Created file: dsta/x'']"
    by blast
  then show ?thesis
    by (auto simp: fresh_def fs_stale_def stat_def node_at_def components_def)
qed

lemma run_tie:
  "observe (replicate_pass 2 ''s'' ''r'' (fresh fs_tie)) = Some (None, fs_tie, [], [])"
  by code_simp

text \<open>
  Source and replica hold \<open>f\<close> with the same modification time and different contents:
  the pass returns without an action and the contents still differ.
\<close>

theorem tie_keeps_old_content:
  "\<exists>st'. replicate_pass 2 ''s'' ''r'' (fresh fs_tie) = Some (Done st')
      \<and> stat (disk st') ''s/f'' = Some (RegFile 5 ''new'')
      \<and> stat (disk st') ''r/f'' = Some (RegFile 5 ''old'')"
proof -
  from observe_Done [OF run_tie] obtain st' where
    "replicate_pass 2 ''s'' ''r'' (fresh fs_tie) = Some (Done st')" "disk st' = fs_tie"
    by blast
  then show ?thesis
    by (auto simp: fs_tie_def stat_def node_at_def components_def)
qed

lemma run_kind:
  "observe_out (replicate_pass 3 ''s'' ''r'' (fresh fs_kind)) = Some (None, fs_kind, [], [])"
  by code_simp

text \<open>
  Claim C1, at a source holding the regular file \<open>d\<close> and a replica holding a directory
  \<open>d\<close>. Both loops ask only whether the counterpart path exists (\<open>os.path.exists\<close>), not
  what it is: the propagate loop finds \<open>r/d\<close> present and not older, the prune loop finds
  \<open>s/d\<close> present, and the pass returns with nothing done, logged or printed. Afterwards
  the entry \<open>d\<close> is a file under the source and a directory under the replica.
\<close>

theorem kind_conflict_survives:
  "\<exists>st'. replicate_pass 3 ''s'' ''r'' (fresh fs_kind) = Some (Done st')
      \<and> stat (disk st') ''s/d'' = Some (RegFile 1 ''x'')
      \<and> stat (disk st') ''r/d'' = Some (Directory 5)
      \<and> disk st' = disk (fresh fs_kind) \<and> logfile st' = [] \<and> console st' = []"
proof -
  from observe_out_Done [OF run_kind] obtain st' where
    "replicate_pass 3 ''s'' ''r'' (fresh fs_kind) = Some (Done st')" "disk st' = fs_kind"
    "logfile st' = []" "console st' = []"
    by blast
  then show ?thesis
    by (auto simp: fresh_def fs_kind_def stat_def node_at_def components_def)
qed



lemma run_new_file:
  "observe (replicate_pass 2 ''s'' ''r'' (fresh fs_new_file)) =
     Some (None, fs_new_file @ [([''r'', ''x''], RegFile 1 ''c'')], [CreatedFile ''r/x''],
           [''T - INFO - [T] Created file: r/x''])"
  by code_simp

text \<open>
  One new file \<open>s/x\<close>: the record written for it is \<open>T - INFO - [T] Created file: r/x\<close>,
  which is not of the form \<open><timestamp> - INFO - Created file: r/x\<close>.
\<close>

theorem log_record_has_extra_stamp:
  "\<exists>st'. replicate_pass 2 ''s'' ''r'' (fresh fs_new_file) = Some (Done st')
      \<and> actions st' = [CreatedFile ''r/x'']
      \<and> logfile st' = [''T - INFO - [T] Created file: r/x'']
      \<and> \<not> (\<exists>ts. hd (logfile st') = ts @ '' - INFO - '' @ action_text (CreatedFile ''r/x''))"
proof -
  from observe_Done [OF run_new_file] obtain st' where st':
    "replicate_pass 2 ''s'' ''r'' (fresh fs_new_file) = Some (Done st')"
    "actions st' = [CreatedFile ''r/x'']"
    "logfile st' = [''T - INFO - [T] Created file: r/x'']"
    by blast
  have "\<not> (\<exists>ts. ''T - INFO - [T] Created file: r/x'' = ts @ '' - INFO - Created file: r/x'')"
  proof
    assume "\<exists>ts. ''T - INFO - [T] Created file: r/x'' = ts @ '' - INFO - Created file: r/x''"
    then have "suffix '' - INFO - Created file: r/x'' ''T - INFO - [T] Created file: r/x''"
      by (auto simp: suffix_def)
    then show False by (simp add: suffix_to_prefix)
  qed
  with st' show ?thesis by auto
qed

subsection \<open>The action reporter\<close>

lemma rendered_append:
  "rendered f c (as @ bs) = rendered f c as @ rendered f (c + 3 * length as) bs"
  by (induction as arbitrary: c) (auto simp: algebra_simps)

lemma length_rendered [simp]: "length (rendered f c as) = length as"
  by (induction as arbitrary: c) auto

lemma rendered_nth: "i < length as \<Longrightarrow> rendered f c as ! i = f (c + 3 * i) (as ! i)"
proof (induction as arbitrary: c i)
  case Nil then show ?case by simp
next
  case (Cons a as)
  then show ?case by (cases i) (auto simp: algebra_simps)
qed

subsection \<open>Invariants through the loops\<close>

lemma for_each_inv:
  assumes step: "\<And>x s. I s \<Longrightarrow> I (final (body x s))"
  shows "I st \<Longrightarrow> I (final (for_each body xs st))"
proof (induction xs arbitrary: st)
  case Nil then show ?case by simp
next
  case (Cons x xs)
  from step [OF Cons.prems, of x] Cons.IH show ?case
    by (cases "body x st") auto
qed

lemma walk_each_inv:
  assumes step: "\<And>x s out. I s \<Longrightarrow> w x s = Some out \<Longrightarrow> I (final out)"
  shows "I st \<Longrightarrow> walk_each w xs st = Some out \<Longrightarrow> I (final out)"
proof (induction xs arbitrary: st)
  case Nil then show ?case by auto
next
  case (Cons x xs)
  show ?case
  proof (cases "w x st")
    case None with Cons.prems show ?thesis by simp
  next
    case (Some r)
    from step [OF Cons.prems(1) Some] have I: "I (final r)" .
    show ?thesis
    proof (cases r)
      case (Done s) with Some I Cons show ?thesis by auto
    next
      case (Raised e s) with Some I Cons.prems show ?thesis by auto
    qed
  qed
qed

lemma apply_fs_inv:
  assumes "I st" and "\<And>fs'. f (disk st) = Inr fs' \<Longrightarrow> I (report a (st\<lparr>disk := fs'\<rparr>))"
  shows "I (final (apply_fs f a st))"
  using assms by (auto simp: apply_fs_def split: sum.splits)

lemma sync_file_inv:
  assumes cr: "\<And>s src dst fs'. I s \<Longrightarrow> \<not> path_exists (disk s) dst \<Longrightarrow> copy2 (disk s) src dst = Inr fs'
                 \<Longrightarrow> I (report (CreatedFile dst) (s\<lparr>disk := fs'\<rparr>))"
      and up: "\<And>s src dst fs'. I s \<Longrightarrow> path_exists (disk s) dst \<Longrightarrow> copy2 (disk s) src dst = Inr fs'
                 \<Longrightarrow> I (report (UpdatedFile dst) (s\<lparr>disk := fs'\<rparr>))"
      and I: "I st"
  shows "I (final (sync_file root replica_path file st))"
proof -
  let ?sf = "path_join root file" and ?rf = "path_join replica_path file"
  have c: "I (final (apply_fs (\<lambda>fs. copy2 fs ?sf ?rf) (CreatedFile ?rf) st))"
    if "\<not> path_exists (disk st) ?rf"
    by (rule apply_fs_inv [where I = I, OF I]) (rule cr [OF I that])
  have u: "I (final (apply_fs (\<lambda>fs. copy2 fs ?sf ?rf) (UpdatedFile ?rf) st))"
    if "path_exists (disk st) ?rf"
    by (rule apply_fs_inv [where I = I, OF I]) (rule up [OF I that])
  show ?thesis
  proof (cases "path_exists (disk st) ?rf")
    case False
    with c show ?thesis by (simp add: sync_file_def Let_def)
  next
    case True
    with u I show ?thesis
      by (simp add: sync_file_def Let_def split: sum.splits)
  qed
qed

lemma visit_source_inv:
  assumes mk: "\<And>s p fs'. I s \<Longrightarrow> \<not> path_exists (disk s) p
                 \<Longrightarrow> makedirs (int (clock s)) (disk s) (components p) = Inr fs'
                 \<Longrightarrow> I (report (CreatedDir p) (s\<lparr>disk := fs'\<rparr>))"
      and cr: "\<And>s src dst fs'. I s \<Longrightarrow> \<not> path_exists (disk s) dst \<Longrightarrow> copy2 (disk s) src dst = Inr fs'
                 \<Longrightarrow> I (report (CreatedFile dst) (s\<lparr>disk := fs'\<rparr>))"
      and up: "\<And>s src dst fs'. I s \<Longrightarrow> path_exists (disk s) dst \<Longrightarrow> copy2 (disk s) src dst = Inr fs'
                 \<Longrightarrow> I (report (UpdatedFile dst) (s\<lparr>disk := fs'\<rparr>))"
      and I: "I st"
  shows "I (final (visit_source source replica root files st))"
proof -
  let ?rp = "replace_first source replica root"
  let ?first = "if \<not> path_exists (disk st) ?rp
                then apply_fs (\<lambda>fs. makedirs (int (clock st)) fs (components ?rp)) (CreatedDir ?rp) st
                else Done st"
  have 1: "I (final ?first)"
  proof (cases "path_exists (disk st) ?rp")
    case True with I show ?thesis by simp
  next
    case False
    have "I (final (apply_fs (\<lambda>fs. makedirs (int (clock st)) fs (components ?rp)) (CreatedDir ?rp) st))"
      by (rule apply_fs_inv [where I = I, OF I]) (rule mk [OF I False])
    with False show ?thesis by simp
  qed
  have 2: "\<And>s. I s \<Longrightarrow> I (final (for_each (sync_file root ?rp) files s))"
    by (rule for_each_inv [where I = I]) (rule sync_file_inv [where I = I, OF cr up], assumption+)
  show ?thesis
    unfolding visit_source_def Let_def
    using 1 2 by (cases ?first) auto
qed

lemma walk_source_inv:
  assumes mk: "\<And>s p fs'. I s \<Longrightarrow> \<not> path_exists (disk s) p
                 \<Longrightarrow> makedirs (int (clock s)) (disk s) (components p) = Inr fs'
                 \<Longrightarrow> I (report (CreatedDir p) (s\<lparr>disk := fs'\<rparr>))"
      and cr: "\<And>s src dst fs'. I s \<Longrightarrow> \<not> path_exists (disk s) dst \<Longrightarrow> copy2 (disk s) src dst = Inr fs'
                 \<Longrightarrow> I (report (CreatedFile dst) (s\<lparr>disk := fs'\<rparr>))"
      and up: "\<And>s src dst fs'. I s \<Longrightarrow> path_exists (disk s) dst \<Longrightarrow> copy2 (disk s) src dst = Inr fs'
                 \<Longrightarrow> I (report (UpdatedFile dst) (s\<lparr>disk := fs'\<rparr>))"
  shows "I st \<Longrightarrow> walk_source n source replica root st = Some out \<Longrightarrow> I (final out)"
proof (induction n arbitrary: st root out)
  case 0 then show ?case by simp
next
  case (Suc n)
  show ?case
  proof (cases "scandir (disk st) root")
    case None with Suc.prems show ?thesis by auto
  next
    case (Some l)
    obtain dirs files where l: "l = (dirs, files)" by (cases l)
    have v: "I (final (visit_source source replica root files st))"
      by (rule visit_source_inv [OF mk cr up]) (assumption | rule Suc.prems)+
    show ?thesis
    proof (cases "visit_source source replica root files st")
      case (Raised e s)
      with Suc.prems Some l v show ?thesis by auto
    next
      case (Done s)
      with Suc.prems Some l
      have w: "walk_each (\<lambda>d. walk_source n source replica (path_join root d)) dirs s = Some out"
        by simp
      from v Done have s: "I s" by simp
      show ?thesis
      proof (rule walk_each_inv [where I = I
            and w = "\<lambda>d. walk_source n source replica (path_join root d)", OF _ s w])
        fix x s' out'
        assume "I s'" "walk_source n source replica (path_join root x) s' = Some out'"
        then show "I (final out')" by (rule Suc.IH)
      qed
    qed
  qed
qed

lemma visit_replica_inv:
  assumes rm: "\<And>s p fs'. I s \<Longrightarrow> os_remove (disk s) p = Inr fs'
                 \<Longrightarrow> I (report (DeletedFile p) (s\<lparr>disk := fs'\<rparr>))"
      and rt: "\<And>s p fs'. I s \<Longrightarrow> rmtree (disk s) p = Inr fs'
                 \<Longrightarrow> I (report (DeletedDir p) (s\<lparr>disk := fs'\<rparr>))"
      and I: "I st"
  shows "I (final (visit_replica source replica root dirs files st))"
proof -
  let ?sp = "replace_first replica source root"
  have pf: "I (final (prune_file root ?sp x s))" if "I s" for x s
  proof (cases "path_exists (disk s) (path_join ?sp x)")
    case True with that show ?thesis by (simp add: prune_file_def Let_def)
  next
    case False
    have "I (final (apply_fs (\<lambda>fs. os_remove fs (path_join root x)) (DeletedFile (path_join root x)) s))"
      by (rule apply_fs_inv [where I = I, OF that]) (rule rm [OF that])
    with False show ?thesis by (simp add: prune_file_def Let_def)
  qed
  have pd: "I (final (prune_dir root ?sp x s))" if "I s" for x s
  proof (cases "path_exists (disk s) (path_join ?sp x)")
    case True with that show ?thesis by (simp add: prune_dir_def Let_def)
  next
    case False
    have "I (final (apply_fs (\<lambda>fs. rmtree fs (path_join root x)) (DeletedDir (path_join root x)) s))"
      by (rule apply_fs_inv [where I = I, OF that]) (rule rt [OF that])
    with False show ?thesis by (simp add: prune_dir_def Let_def)
  qed
  have 1: "\<And>s. I s \<Longrightarrow> I (final (for_each (prune_file root ?sp) files s))"
    by (rule for_each_inv [where I = I]) (rule pf)
  have 2: "\<And>s. I s \<Longrightarrow> I (final (for_each (prune_dir root ?sp) dirs s))"
    by (rule for_each_inv [where I = I]) (rule pd)
  show ?thesis
    unfolding visit_replica_def Let_def
    using 1 [OF I] 2 by (cases "for_each (prune_file root ?sp) files st") auto
qed

lemma walk_replica_inv:
  assumes rm: "\<And>s p fs'. I s \<Longrightarrow> os_remove (disk s) p = Inr fs'
                 \<Longrightarrow> I (report (DeletedFile p) (s\<lparr>disk := fs'\<rparr>))"
      and rt: "\<And>s p fs'. I s \<Longrightarrow> rmtree (disk s) p = Inr fs'
                 \<Longrightarrow> I (report (DeletedDir p) (s\<lparr>disk := fs'\<rparr>))"
  shows "I st \<Longrightarrow> walk_replica n source replica root st = Some out \<Longrightarrow> I (final out)"
proof (induction n arbitrary: st root out)
  case 0 then show ?case by simp
next
  case (Suc n)
  show ?case
  proof (cases "scandir (disk st) root")
    case None with Suc.prems show ?thesis by auto
  next
    case (Some l)
    obtain dirs files where l: "l = (dirs, files)" by (cases l)
    show ?thesis
    proof (cases "walk_each (\<lambda>d. walk_replica n source replica (path_join root d)) dirs st")
      case None with Suc.prems Some l show ?thesis by simp
    next
      case (Some r)
      have Ir: "I (final r)"
      proof (rule walk_each_inv [where I = I
            and w = "\<lambda>d. walk_replica n source replica (path_join root d)",
            OF _ Suc.prems(1) Some])
        fix x s' out'
        assume "I s'" "walk_replica n source replica (path_join root x) s' = Some out'"
        then show "I (final out')" by (rule Suc.IH)
      qed
      show ?thesis
      proof (cases r)
        case (Raised e s)
        with Suc.prems \<open>scandir (disk st) root = Some l\<close> l Some Ir show ?thesis by auto
      next
        case (Done s)
        with Suc.prems \<open>scandir (disk st) root = Some l\<close> l Some
        have "out = visit_replica source replica root dirs files s" by simp
        moreover from Ir Done have "I s" by simp
        ultimately show ?thesis using visit_replica_inv [OF rm rt] by blast
      qed
    qed
  qed
qed


lemma replicate_pass_inv:
  assumes mk: "\<And>s p fs'. I s \<Longrightarrow> \<not> path_exists (disk s) p
                 \<Longrightarrow> makedirs (int (clock s)) (disk s) (components p) = Inr fs'
                 \<Longrightarrow> I (report (CreatedDir p) (s\<lparr>disk := fs'\<rparr>))"
      and cr: "\<And>s src dst fs'. I s \<Longrightarrow> \<not> path_exists (disk s) dst \<Longrightarrow> copy2 (disk s) src dst = Inr fs'
                 \<Longrightarrow> I (report (CreatedFile dst) (s\<lparr>disk := fs'\<rparr>))"
      and up: "\<And>s src dst fs'. I s \<Longrightarrow> path_exists (disk s) dst \<Longrightarrow> copy2 (disk s) src dst = Inr fs'
                 \<Longrightarrow> I (report (UpdatedFile dst) (s\<lparr>disk := fs'\<rparr>))"
      and rm: "\<And>s p fs'. I s \<Longrightarrow> os_remove (disk s) p = Inr fs'
                 \<Longrightarrow> I (report (DeletedFile p) (s\<lparr>disk := fs'\<rparr>))"
      and rt: "\<And>s p fs'. I s \<Longrightarrow> rmtree (disk s) p = Inr fs'
                 \<Longrightarrow> I (report (DeletedDir p) (s\<lparr>disk := fs'\<rparr>))"
      and I: "I (st\<lparr>passes := passes st + 1\<rparr>)"
      and run: "replicate_pass n source replica st = Some out"
  shows "I (final out)"
proof (cases "propagate n source replica (st\<lparr>passes := passes st + 1\<rparr>)")
  case None with run show ?thesis by (simp add: replicate_pass_def)
next
  case (Some r)
  from Some have w: "walk_source n source replica source (st\<lparr>passes := passes st + 1\<rparr>) = Some r"
    by (simp add: propagate_def)
  have Ir: "I (final r)"
    by (rule walk_source_inv [where I = I, OF mk cr up I w]) assumption+
  show ?thesis
  proof (cases r)
    case (Raised e s)
    with Some run Ir show ?thesis by (simp add: replicate_pass_def)
  next
    case (Done s)
    with Some run have w': "walk_replica n source replica replica s = Some out"
      by (simp add: replicate_pass_def prune_def)
    from Ir Done have s: "I s" by simp
    show ?thesis
      by (rule walk_replica_inv [where I = I, OF rm rt s w']) assumption+
  qed
qed

lemma report_fields:
  "actions (report a s) = actions s @ [a]"
  "clock (report a s) = clock s + 3"
  "now (report a s) = now s"
  "log_open (report a s) = log_open s"
  "disk (report a s) = disk s"
  "passes (report a s) = passes s"
  "log_open s \<Longrightarrow> logfile (report a s) = logfile s @ [log_record (now s) (clock s) a]"
  "console (report a s) = console s @ [console_line (now s) (clock s) a]"
  by (simp_all add: report_def print_action_def logging_info_def Let_def log_record_def
      console_line_def)

lemma extends_refl: "log_open st \<Longrightarrow> extends st (st\<lparr>passes := k\<rparr>)"
  by (simp add: extends_def)

lemma extends_report:
  assumes "extends st0 s"
  shows "extends st0 (report a (s\<lparr>disk := fs'\<rparr>))"
proof -
  from assms obtain new where new:
    "actions s = actions st0 @ new"
    "logfile s = logfile st0 @ rendered (log_record (now st0)) (clock st0) new"
    "console s = console st0 @ rendered (console_line (now st0)) (clock st0) new"
    "clock s = clock st0 + 3 * length new" "now s = now st0" "log_open s"
    unfolding extends_def by blast
  show ?thesis
    unfolding extends_def
    by (rule exI [of _ "new @ [a]"]) (simp add: report_fields new rendered_append)
qed

lemma pass_output:
  assumes "log_open st" and "replicate_pass n source replica st = Some out"
  shows "extends st (final out)"
  by (rule replicate_pass_inv [where I = "extends st", OF _ _ _ _ _ _ assms(2)])
     (simp_all add: extends_report extends_refl assms(1))

text \<open>
  Claim C8, amended. In a pass begun with the log handler installed, every action adds
  exactly one record to the log and one line to the console, in the order of the actions,
  and a pass without actions leaves the filesystem as it was. The record of an action is
  \<open><asctime> - INFO - [<timestamp>] <action text>\<close>: the message carries a bracketed
  timestamp of its own between the level and the action text, read from the clock just
  before the record is stamped. The action text is one of \<open>Created directory: <path>\<close>,
  \<open>Created file: <path>\<close>, \<open>Updated file: <path>\<close>, \<open>Deleted file: <path>\<close>,
  \<open>Deleted directory: <path>\<close>. For a file created or updated and for a file or directory
  deleted, the console line is \<open>[<timestamp>] <action text>\<close>, stamped by a third reading
  of the clock.
\<close>

theorem every_action_is_recorded:
  assumes "log_open st" and "replicate_pass n source replica st = Some out"
  shows "\<exists>new. actions (final out) = actions st @ new
           \<and> (new = [] \<longrightarrow> disk (final out) = disk st)
           \<and> length (logfile (final out)) = length (logfile st) + length new
           \<and> length (console (final out)) = length (console st) + length new
           \<and> (\<forall>i<length new.
                  logfile (final out) ! (length (logfile st) + i)
                    = now st (clock st + 3 * i + 1) @ '' - INFO - ''
                      @ ''['' @ now st (clock st + 3 * i) @ ''] '' @ action_text (new ! i)
                  \<and> ((\<forall>p. new ! i \<noteq> CreatedDir p) \<longrightarrow>
                       console (final out) ! (length (console st) + i)
                         = ''['' @ now st (clock st + 3 * i + 2) @ ''] '' @ action_text (new ! i)))"
proof -
  from pass_output [OF assms] obtain new where new:
    "actions (final out) = actions st @ new"
    "logfile (final out) = logfile st @ rendered (log_record (now st)) (clock st) new"
    "console (final out) = console st @ rendered (console_line (now st)) (clock st) new"
    "new = [] \<longrightarrow> disk (final out) = disk st"
    unfolding extends_def by blast
  have c: "console (final out) ! (length (console st) + i)
          = ''['' @ now st (clock st + 3 * i + 2) @ ''] '' @ action_text (new ! i)"
    if "i < length new" "\<forall>p. new ! i \<noteq> CreatedDir p" for i
  proof -
    have "console_bracket (new ! i) = ''] ''"
      using that(2) by (cases "new ! i") auto
    with that(1) show ?thesis
      by (simp add: new(3) nth_append rendered_nth console_line_def)
  qed
  have l: "logfile (final out) ! (length (logfile st) + i)
          = now st (clock st + 3 * i + 1) @ '' - INFO - ''
            @ ''['' @ now st (clock st + 3 * i) @ ''] '' @ action_text (new ! i)"
    if "i < length new" for i
    using that by (simp add: new(2) nth_append rendered_nth log_record_def)
  from new c l show ?thesis by (intro exI [of _ new]) simp
qed

lemma singleton_by_nth: "length xs = Suc 0 \<Longrightarrow> xs ! 0 = v \<Longrightarrow> xs = [v]"
  by (cases xs) auto

theorem every_action_is_recorded_witness:
  "log_open (fresh fs_new_file)
   \<and> (\<exists>out. replicate_pass 2 ''s'' ''r'' (fresh fs_new_file) = Some out
          \<and> actions (final out) = [CreatedFile ''r/x'']
          \<and> logfile (final out) = [''T - INFO - [T] Created file: r/x'']
          \<and> console (final out) = [''[T] Created file: r/x''])"
proof -
  from observe_Done [OF run_new_file] obtain st' where st':
    "replicate_pass 2 ''s'' ''r'' (fresh fs_new_file) = Some (Done st')"
    "actions st' = [CreatedFile ''r/x'']"
    by blast
  have lo: "log_open (fresh fs_new_file)" by (simp add: fresh_def)
  from every_action_is_recorded [OF lo st'(1)] obtain new where new:
    "actions st' = actions (fresh fs_new_file) @ new"
    "length (logfile st') = length (logfile (fresh fs_new_file)) + length new"
    "length (console st') = length (console (fresh fs_new_file)) + length new"
    "\<forall>i<length new.
        logfile st' ! (length (logfile (fresh fs_new_file)) + i)
          = now (fresh fs_new_file) (clock (fresh fs_new_file) + 3 * i + 1) @ '' - INFO - ''
            @ ''['' @ now (fresh fs_new_file) (clock (fresh fs_new_file) + 3 * i) @ ''] ''
            @ action_text (new ! i)
        \<and> ((\<forall>p. new ! i \<noteq> CreatedDir p) \<longrightarrow>
             console st' ! (length (console (fresh fs_new_file)) + i)
               = ''['' @ now (fresh fs_new_file) (clock (fresh fs_new_file) + 3 * i + 2) @ ''] ''
                 @ action_text (new ! i))"
    by auto
  from new(1) st'(2) have n: "new = [CreatedFile ''r/x'']" by (simp add: fresh_def)
  from new(2,3) n have len: "length (logfile st') = Suc 0" "length (console st') = Suc 0"
    by (simp_all add: fresh_def)
  from new(4) n have "logfile st' ! 0 = ''T - INFO - [T] Created file: r/x''"
    and "console st' ! 0 = ''[T] Created file: r/x''"
    by (simp_all add: fresh_def)
  with len have "logfile st' = [''T - INFO - [T] Created file: r/x'']"
    and "console st' = [''[T] Created file: r/x'']"
    by (simp_all add: singleton_by_nth)
  with st' lo show ?thesis by simp
qed

subsection \<open>Errors in a pass\<close>






subsection \<open>The shape of the store under the filesystem calls\<close>

lemma wf_fs_tree_shaped: "wf_fs fs \<Longrightarrow> tree_shaped fs"
  unfolding wf_fs_def tree_shaped_def list_all_iff
  by (fastforce dest: map_of_SomeD split: option.splits node.splits)

lemma node_at_update:
  "node_at (AList.update k v fs) q =
     (if q = [] then Some (Directory 0) else if q = k then Some v else map_of fs q)"
  by (simp add: node_at_def update_conv')

lemma node_at_delete:
  "node_at (AList.delete k fs) q =
     (if q = [] then Some (Directory 0) else if q = k then None else map_of fs q)"
  by (simp add: node_at_def delete_conv')

lemma map_of_filter_key:
  "map_of (filter (\<lambda>(k, v). P k) fs) q = (if P q then map_of fs q else None)"
  by (induction fs) auto

lemma ancestors_exist:
  assumes "tree_shaped fs"
  shows "node_at fs q \<noteq> None \<Longrightarrow> prefix p q \<Longrightarrow> node_at fs p \<noteq> None"
proof (induction q rule: rev_induct)
  case Nil then show ?case by simp
next
  case (snoc x q)
  show ?case
  proof (cases "p = q @ [x]")
    case True with snoc.prems show ?thesis by simp
  next
    case False
    with snoc.prems(2) have pq: "prefix p q" by (simp add: prefix_snoc)
    from snoc.prems(1) obtain n where "map_of fs (q @ [x]) = Some n"
      by (auto simp: node_at_def)
    with assms have "node_at fs q \<noteq> None" unfolding tree_shaped_def by fastforce
    then show ?thesis using pq by (rule snoc.IH)
  qed
qed

lemma mkdir_Inr:
  assumes "mkdir t fs p = Inr fs'"
  shows "node_at fs p = None" and "\<exists>t'. node_at fs (butlast p) = Some (Directory t')"
    and "fs' = AList.update p (Directory t) fs" and "p \<noteq> []"
  using assms by (auto simp: mkdir_def node_at_def split: if_splits option.splits node.splits)

lemma mkdir_mono:
  "mkdir t fs p = Inr fs' \<Longrightarrow> node_at fs q \<noteq> None \<Longrightarrow> node_at fs' q \<noteq> None"
  by (auto dest!: mkdir_Inr(3) simp: node_at_def update_conv')

lemma mkdir_target: "mkdir t fs p = Inr fs' \<Longrightarrow> node_at fs' p \<noteq> None"
  by (auto dest!: mkdir_Inr(3) simp: node_at_update)

lemma mkdir_tree_shaped:
  assumes wf: "tree_shaped fs" and mk: "mkdir t fs p = Inr fs'"
  shows "tree_shaped fs'"
  unfolding tree_shaped_def
proof (intro allI impI)
  fix q n assume q: "map_of fs' q = Some n"
  note m = mkdir_Inr [OF mk]
  show "q \<noteq> [] \<and> (\<exists>t. node_at fs' (butlast q) = Some (Directory t))"
  proof (cases "q = p")
    case True
    from m(2) obtain t' where "node_at fs (butlast p) = Some (Directory t')" by blast
    moreover from m(1) this have "butlast p \<noteq> p" by auto
    ultimately have "node_at fs' (butlast p) = Some (Directory t')"
      by (auto simp: m(3) node_at_def update_conv')
    with True m(4) show ?thesis by blast
  next
    case False
    with q have old: "map_of fs q = Some n" by (simp add: m(3) update_conv')
    with wf obtain t' where ne: "q \<noteq> []" and par: "node_at fs (butlast q) = Some (Directory t')"
      unfolding tree_shaped_def by blast
    from par m(1) have "butlast q \<noteq> p" by auto
    with par have "node_at fs' (butlast q) = Some (Directory t')"
      by (auto simp: m(3) node_at_def update_conv')
    with ne show ?thesis by blast
  qed
qed

lemma makedirs_props:
  "makedirs t fs p = Inr fs' \<Longrightarrow>
     (tree_shaped fs \<longrightarrow> tree_shaped fs')
     \<and> (\<forall>q. node_at fs q \<noteq> None \<longrightarrow> node_at fs' q \<noteq> None)
     \<and> node_at fs' p \<noteq> None"
proof (induction t fs p arbitrary: fs' rule: makedirs.induct)
  case (1 t fs p)
  show ?case
  proof (cases "p \<noteq> [] \<and> butlast p \<noteq> [] \<and> node_at fs (butlast p) = None")
    case False
    with "1.prems" have "mkdir t fs p = Inr fs'"
      by (subst (asm) makedirs.simps) (auto split: if_splits)
    then show ?thesis
      using mkdir_tree_shaped mkdir_mono mkdir_target by blast
  next
    case True
    show ?thesis
    proof (cases "makedirs t fs (butlast p)")
      case (Inl e)
      with True "1.prems" have "mkdir t fs p = Inr fs'"
        by (subst (asm) makedirs.simps) (auto split: if_splits)
      then show ?thesis
        using mkdir_tree_shaped mkdir_mono mkdir_target by blast
    next
      case (Inr fs1)
      with True "1.prems" have mk: "mkdir t fs1 p = Inr fs'"
        by (subst (asm) makedirs.simps) (auto split: if_splits)
      from True Inr "1.IH" [of fs1]
      have ih: "(tree_shaped fs \<longrightarrow> tree_shaped fs1)
                \<and> (\<forall>q. node_at fs q \<noteq> None \<longrightarrow> node_at fs1 q \<noteq> None)"
        by simp
      with mk show ?thesis
        using mkdir_tree_shaped mkdir_mono mkdir_target by blast
    qed
  qed
qed

lemma copyfile_Inr:
  assumes "copyfile fs src dst = Inr fs'"
  shows "\<exists>t c. fs' = AList.update (components dst) (RegFile t c) fs
           \<and> components dst \<noteq> []
           \<and> ((\<exists>t' c'. node_at fs (components dst) = Some (RegFile t' c'))
               \<or> (node_at fs (components dst) = None
                   \<and> (\<exists>t'. node_at fs (butlast (components dst)) = Some (Directory t'))))"
  using assms
  by (auto simp: copyfile_def stat_def node_at_def
      split: if_splits option.splits node.splits)

lemma copyfile_props:
  assumes cp: "copyfile fs src dst = Inr fs'"
  shows "(tree_shaped fs \<longrightarrow> tree_shaped fs')
     \<and> (\<forall>q. node_at fs q \<noteq> None \<longrightarrow> node_at fs' q \<noteq> None)
     \<and> node_at fs' (components dst) \<noteq> None"
proof -
  let ?k = "components dst"
  from copyfile_Inr [OF cp] obtain t c where
    fs': "fs' = AList.update ?k (RegFile t c) fs" and k: "?k \<noteq> []"
    and how: "(\<exists>t' c'. node_at fs ?k = Some (RegFile t' c'))
               \<or> (node_at fs ?k = None \<and> (\<exists>t'. node_at fs (butlast ?k) = Some (Directory t')))"
    by blast
  have notdir: "\<And>t'. node_at fs ?k \<noteq> Some (Directory t')" using how by auto
  have mono: "\<forall>q. node_at fs q \<noteq> None \<longrightarrow> node_at fs' q \<noteq> None"
    by (auto simp: fs' node_at_def update_conv')
  have tgt: "node_at fs' ?k \<noteq> None" by (simp add: fs' node_at_update k)
  have wf: "tree_shaped fs'" if wf0: "tree_shaped fs"
    unfolding tree_shaped_def
  proof (intro allI impI)
    fix q n assume q: "map_of fs' q = Some n"
    have keep: "node_at fs' (butlast r) = Some (Directory t')"
      if "node_at fs (butlast r) = Some (Directory t')" for r t'
    proof -
      from that notdir have "butlast r \<noteq> ?k" by auto
      with that show ?thesis by (auto simp: fs' node_at_def update_conv')
    qed
    show "q \<noteq> [] \<and> (\<exists>t. node_at fs' (butlast q) = Some (Directory t))"
    proof (cases "q = ?k")
      case True
      have "\<exists>t'. node_at fs (butlast ?k) = Some (Directory t')"
      proof (cases "node_at fs ?k")
        case None with how show ?thesis by auto
      next
        case (Some n')
        with k have "map_of fs ?k = Some n'" by (simp add: node_at_def)
        with wf0 show ?thesis unfolding tree_shaped_def by blast
      qed
      then obtain t' where "node_at fs (butlast ?k) = Some (Directory t')" by blast
      from keep [OF this] True k show ?thesis by simp
    next
      case False
      with q have "map_of fs q = Some n" by (simp add: fs' update_conv')
      with wf0 obtain t' where "q \<noteq> []" "node_at fs (butlast q) = Some (Directory t')"
        unfolding tree_shaped_def by blast
      from this(1) keep [OF this(2)] show ?thesis by simp
    qed
  qed
  from wf mono tgt show ?thesis by blast
qed

lemma copy2_props:
  assumes cp: "copy2 fs src dst = Inr fs'"
  shows "(tree_shaped fs \<longrightarrow> tree_shaped fs')
     \<and> (\<forall>q. node_at fs q \<noteq> None \<longrightarrow> node_at fs' q \<noteq> None)
     \<and> node_at fs' (components dst) \<noteq> None"
proof (cases "isdir fs dst")
  case False
  with cp have "copyfile fs src dst = Inr fs'" by (simp add: copy2_def)
  then show ?thesis by (rule copyfile_props)
next
  case True
  with cp have "copyfile fs src (path_join dst (basename src)) = Inr fs'" by (simp add: copy2_def)
  from copyfile_props [OF this]
  have p: "(tree_shaped fs \<longrightarrow> tree_shaped fs')" "\<forall>q. node_at fs q \<noteq> None \<longrightarrow> node_at fs' q \<noteq> None"
    by blast+
  from True have "node_at fs (components dst) \<noteq> None"
    by (auto simp: isdir_def stat_def split: option.splits if_splits)
  with p show ?thesis by blast
qed

lemma os_remove_props:
  assumes "os_remove fs p = Inr fs'"
  shows "node_at fs (components p) \<noteq> None \<and> (\<forall>q. node_at fs' q \<noteq> None \<longrightarrow> node_at fs q \<noteq> None)"
  using assms
  by (auto simp: os_remove_def stat_def node_at_def delete_conv'
      split: option.splits node.splits if_splits)

lemma rmtree_props:
  assumes "rmtree fs p = Inr fs'"
  shows "node_at fs (components p) \<noteq> None
     \<and> (\<forall>q. node_at fs' q \<noteq> None \<longrightarrow> node_at fs q \<noteq> None)
     \<and> (\<forall>q. prefix (components p) q \<longrightarrow> node_at fs' q = None)"
proof -
  from assms have fs': "fs' = filter (\<lambda>(q, n). \<not> prefix (components p) q) fs"
    and ne: "components p \<noteq> []" and ex: "node_at fs (components p) \<noteq> None"
    by (auto simp: rmtree_def stat_def split: option.splits node.splits if_splits)
  have "node_at fs' q = None" if "prefix (components p) q" for q
  proof -
    from that ne have "q \<noteq> []" by auto
    with that show ?thesis by (simp add: fs' node_at_def map_of_filter_key)
  qed
  moreover have "node_at fs q \<noteq> None" if "node_at fs' q \<noteq> None" for q
    using that by (auto simp: fs' node_at_def map_of_filter_key split: if_splits)
  ultimately show ?thesis using ex by blast
qed


subsection \<open>The order of the actions\<close>

lemma creation_ordered_snoc:
  assumes "creation_ordered new"
      and "is_dir_creation a \<Longrightarrow> \<forall>b\<in>set new. is_creation b \<longrightarrow> \<not> under (target a) (target b)"
  shows "creation_ordered (new @ [a])"
  unfolding creation_ordered_def
proof (intro allI impI)
  fix i j
  assume i: "i < length (new @ [a])" and j: "j < length (new @ [a])"
    and h: "is_dir_creation ((new @ [a]) ! i) \<and> is_creation ((new @ [a]) ! j)
            \<and> under (target ((new @ [a]) ! i)) (target ((new @ [a]) ! j))"
  show "i < j"
  proof (cases "i < length new")
    case True
    show ?thesis
    proof (cases "j < length new")
      case False with True j show ?thesis by simp
    next
      case T: True
      with True h assms(1) show ?thesis
        unfolding creation_ordered_def by (simp add: nth_append)
    qed
  next
    case False
    with i have ia: "i = length new" by simp
    with h have d: "is_dir_creation a" by simp
    show ?thesis
    proof (cases "j < length new")
      case True
      with h ia have "is_creation (new ! j)" "under (target a) (target (new ! j))"
        by (simp_all add: nth_append)
      with assms(2) [OF d] True show ?thesis by (meson nth_mem)
    next
      case F: False
      with j have "j = length new" by simp
      with h ia show ?thesis by (simp add: under_def)
    qed
  qed
qed

lemma deletion_ordered_snoc:
  assumes "deletion_ordered new"
      and "is_deletion a \<Longrightarrow> \<forall>b\<in>set new. is_dir_deletion b \<longrightarrow> \<not> under (target b) (target a)"
  shows "deletion_ordered (new @ [a])"
  unfolding deletion_ordered_def
proof (intro allI impI)
  fix i j
  assume i: "i < length (new @ [a])" and j: "j < length (new @ [a])"
    and h: "is_dir_deletion ((new @ [a]) ! i) \<and> is_deletion ((new @ [a]) ! j)
            \<and> under (target ((new @ [a]) ! i)) (target ((new @ [a]) ! j))"
  show "j < i"
  proof (cases "j < length new")
    case True
    show ?thesis
    proof (cases "i < length new")
      case False with True i show ?thesis by simp
    next
      case T: True
      with True h assms(1) show ?thesis
        unfolding deletion_ordered_def by (simp add: nth_append)
    qed
  next
    case False
    with j have ja: "j = length new" by simp
    with h have d: "is_deletion a" by simp
    show ?thesis
    proof (cases "i < length new")
      case True
      with h ja have "is_dir_deletion (new ! i)" "under (target (new ! i)) (target a)"
        by (simp_all add: nth_append)
      with assms(2) [OF d] True show ?thesis by (meson nth_mem)
    next
      case F: False
      with i have "i = length new" by simp
      with h ja show ?thesis by (simp add: under_def)
    qed
  qed
qed

lemma creation_ordered_Nil: "creation_ordered []" "deletion_ordered []"
  by (simp_all add: creation_ordered_def deletion_ordered_def)

lemma creations_deletion_ordered:
  "\<forall>a\<in>set new. is_creation a \<Longrightarrow> deletion_ordered new"
  unfolding deletion_ordered_def
proof (intro allI impI)
  fix i j assume a: "\<forall>a\<in>set new. is_creation a" and "i < length new"
    and "is_dir_deletion (new ! i) \<and> is_deletion (new ! j)
         \<and> under (target (new ! i)) (target (new ! j))"
  then have "is_creation (new ! i)" "is_dir_deletion (new ! i)" by simp_all
  then show "j < i" by (cases "new ! i") simp_all
qed

lemma makedirs_Nil: "makedirs t fs [] = Inl FileExistsError"
  by (subst makedirs.simps) simp

lemma propagating_start: "tree_shaped (disk st) \<Longrightarrow> propagating st (st\<lparr>passes := k\<rparr>)"
  by (simp add: propagating_def creation_ordered_Nil)

lemma propagating_mkdir:
  assumes inv: "propagating st0 s" and miss: "\<not> path_exists (disk s) p"
      and mk: "makedirs t (disk s) (components p) = Inr fs'"
  shows "propagating st0 (report (CreatedDir p) (s\<lparr>disk := fs'\<rparr>))"
proof -
  from inv obtain new where wf: "tree_shaped (disk s)" and new: "actions s = actions st0 @ new"
    and ord: "creation_ordered new"
    and ex: "\<forall>a\<in>set new. is_creation a \<and> node_at (disk s) (components (target a)) \<noteq> None"
    unfolding propagating_def by blast
  note m = makedirs_props [OF mk]
  from mk have "components p \<noteq> []" by (auto simp: makedirs_Nil)
  then have "p \<noteq> []" by (auto simp: components_empty)
  with miss have np: "node_at (disk s) (components p) = None"
    by (simp add: path_exists_def stat_def)
  have no: "\<not> under p (target b)" if "b \<in> set new" for b
  proof
    assume "under p (target b)"
    then have "prefix (components p) (components (target b))"
      by (simp add: under_def strict_prefix_def)
    moreover from ex that have "node_at (disk s) (components (target b)) \<noteq> None" by blast
    ultimately have "node_at (disk s) (components p) \<noteq> None"
      using ancestors_exist [OF wf] by blast
    with np show False by simp
  qed
  have "creation_ordered (new @ [CreatedDir p])"
    by (rule creation_ordered_snoc [OF ord]) (simp add: no)
  moreover have "\<forall>a\<in>set (new @ [CreatedDir p]).
      is_creation a \<and> node_at fs' (components (target a)) \<noteq> None"
    using ex m by auto
  ultimately show ?thesis
    unfolding propagating_def using wf m new
    by (auto simp: report_fields intro!: exI [of _ "new @ [CreatedDir p]"])
qed

lemma propagating_copy:
  assumes inv: "propagating st0 s" and cp: "copy2 (disk s) src dst = Inr fs'"
      and a: "a = CreatedFile dst \<or> a = UpdatedFile dst"
  shows "propagating st0 (report a (s\<lparr>disk := fs'\<rparr>))"
proof -
  from inv obtain new where wf: "tree_shaped (disk s)" and new: "actions s = actions st0 @ new"
    and ord: "creation_ordered new"
    and ex: "\<forall>a\<in>set new. is_creation a \<and> node_at (disk s) (components (target a)) \<noteq> None"
    unfolding propagating_def by blast
  note m = copy2_props [OF cp]
  have "creation_ordered (new @ [a])"
    by (rule creation_ordered_snoc [OF ord]) (use a in auto)
  moreover have "\<forall>b\<in>set (new @ [a]). is_creation b \<and> node_at fs' (components (target b)) \<noteq> None"
    using ex m a by auto
  ultimately show ?thesis
    unfolding propagating_def using wf m new
    by (auto simp: report_fields intro!: exI [of _ "new @ [a]"])
qed

lemma propagating_pruning: "propagating st0 s \<Longrightarrow> pruning st0 s"
  unfolding propagating_def pruning_def
  by (elim conjE exE, rule_tac x = new in exI)
     (auto simp: creations_deletion_ordered, case_tac a, auto)

lemma pruning_delete:
  assumes inv: "pruning st0 s"
      and rm: "node_at (disk s) (components p) \<noteq> None"
              "\<forall>q. node_at fs' q \<noteq> None \<longrightarrow> node_at (disk s) q \<noteq> None"
      and a: "a = DeletedFile p
              \<or> (a = DeletedDir p \<and> (\<forall>q. prefix (components p) q \<longrightarrow> node_at fs' q = None))"
  shows "pruning st0 (report a (s\<lparr>disk := fs'\<rparr>))"
proof -
  from inv obtain new where new: "actions s = actions st0 @ new"
    and co: "creation_ordered new" and de: "deletion_ordered new"
    and gone: "\<forall>b\<in>set new. is_dir_deletion b \<longrightarrow>
                 (\<forall>q. prefix (components (target b)) q \<longrightarrow> node_at (disk s) q = None)"
    unfolding pruning_def by blast
  from a have ta: "target a = p" and da: "is_deletion a" "\<not> is_dir_creation a" by auto
  have no: "\<not> under (target b) (target a)" if "b \<in> set new" "is_dir_deletion b" for b
  proof
    assume "under (target b) (target a)"
    then have "prefix (components (target b)) (components p)"
      by (simp add: under_def strict_prefix_def ta)
    with gone that have "node_at (disk s) (components p) = None" by blast
    with rm(1) show False by simp
  qed
  have "creation_ordered (new @ [a])"
    by (rule creation_ordered_snoc [OF co]) (simp add: da)
  moreover have "deletion_ordered (new @ [a])"
    by (rule deletion_ordered_snoc [OF de]) (use no in blast)
  moreover have "\<forall>b\<in>set (new @ [a]). is_dir_deletion b \<longrightarrow>
                 (\<forall>q. prefix (components (target b)) q \<longrightarrow> node_at fs' q = None)"
  proof (intro ballI impI allI)
    fix b q assume b: "b \<in> set (new @ [a])" "is_dir_deletion b"
      and q: "prefix (components (target b)) q"
    show "node_at fs' q = None"
    proof (cases "b \<in> set new")
      case True
      with gone b q have "node_at (disk s) q = None" by blast
      with rm(2) show ?thesis by blast
    next
      case False
      with b have "b = a" by simp
      with b a q show ?thesis by auto
    qed
  qed
  ultimately show ?thesis
    unfolding pruning_def using new
    by (auto simp: report_fields intro!: exI [of _ "new @ [a]"])
qed


lemma propagate_ordering:
  assumes "tree_shaped (disk st)"
      and "walk_source n source replica root (st\<lparr>passes := k\<rparr>) = Some r"
  shows "propagating st (final r)"
proof (rule walk_source_inv [where I = "propagating st", OF _ _ _ _ assms(2)])
  show "propagating st (st\<lparr>passes := k\<rparr>)" by (rule propagating_start [OF assms(1)])
qed (auto intro: propagating_mkdir propagating_copy)

lemma prune_ordering:
  assumes "pruning st s" and "walk_replica n source replica root s = Some out"
  shows "pruning st (final out)"
proof (rule walk_replica_inv [where I = "pruning st", OF _ _ assms])
  fix s p fs' assume "pruning st s" "os_remove (disk s) p = Inr fs'"
  then show "pruning st (report (DeletedFile p) (s\<lparr>disk := fs'\<rparr>))"
    using os_remove_props [of "disk s" p fs'] by (intro pruning_delete [where p = p]) auto
next
  fix s p fs' assume "pruning st s" "rmtree (disk s) p = Inr fs'"
  then show "pruning st (report (DeletedDir p) (s\<lparr>disk := fs'\<rparr>))"
    using rmtree_props [of "disk s" p fs'] by (intro pruning_delete [where p = p]) auto
qed

lemma pass_pruning:
  assumes wf: "wf_fs (disk st)" and run: "replicate_pass n source replica st = Some out"
  shows "pruning st (final out)"
proof (cases "propagate n source replica (st\<lparr>passes := passes st + 1\<rparr>)")
  case None with run show ?thesis by (simp add: replicate_pass_def)
next
  case (Some r)
  then have w: "walk_source n source replica source (st\<lparr>passes := passes st + 1\<rparr>) = Some r"
    by (simp add: propagate_def)
  have p: "pruning st (final r)"
    by (rule propagating_pruning, rule propagate_ordering [OF wf_fs_tree_shaped [OF wf] w])
  show ?thesis
  proof (cases r)
    case (Raised e s)
    with Some run p show ?thesis by (simp add: replicate_pass_def)
  next
    case (Done s)
    with Some run have "walk_replica n source replica replica s = Some out"
      by (simp add: replicate_pass_def prune_def)
    moreover from p Done have "pruning st s" by simp
    ultimately show ?thesis by (rule prune_ordering [rotated])
  qed
qed

text \<open>
  Claim C4. In every pass on a store that is a tree, whatever the roots and however the
  pass ends, the actions of the pass are ordered: the action that creates a directory comes
  before every action that creates or updates an entry under it, and the action that
  deletes a directory comes after every deletion of an entry under it. The records of the
  log follow the order of the actions. The run below the theorem has both cases: the nested
  directories \<open>p\<close>, \<open>p/q\<close>, \<open>p/q/r\<close> that only the source holds are created in that
  order, before the file in them, and the file \<open>a/b.txt\<close> that only the replica holds is
  deleted before its directory \<open>a\<close>.
\<close>

theorem pass_ordering:
  assumes "wf_fs (disk st)" and "replicate_pass n source replica st = Some out"
  shows "\<exists>new. actions (final out) = actions st @ new
           \<and> creation_ordered new \<and> deletion_ordered new
           \<and> (log_open st \<longrightarrow>
                 logfile (final out) = logfile st @ rendered (log_record (now st)) (clock st) new)"
proof -
  from pass_pruning [OF assms] obtain new where new:
    "actions (final out) = actions st @ new" "creation_ordered new" "deletion_ordered new"
    unfolding pruning_def by blast
  have "logfile (final out) = logfile st @ rendered (log_record (now st)) (clock st) new"
    if "log_open st"
    using pass_output [OF that assms(2)] new(1) unfolding extends_def by auto
  with new show ?thesis by blast
qed

lemma wf_scenario: "wf_fs fs_scenario"
  by code_simp

lemma run_scenario:
  "observe (replicate_pass 5 ''s'' ''r'' (fresh fs_scenario)) =
     Some (None,
       [([''s''], Directory 0), ([''r''], Directory 0),
        ([''s'', ''p''], Directory 0), ([''s'', ''p'', ''q''], Directory 0),
        ([''s'', ''p'', ''q'', ''r''], Directory 0),
        ([''s'', ''p'', ''q'', ''r'', ''f''], RegFile 1 ''c''),
        ([''r'', ''p''], Directory 0), ([''r'', ''p'', ''q''], Directory 3),
        ([''r'', ''p'', ''q'', ''r''], Directory 6),
        ([''r'', ''p'', ''q'', ''r'', ''f''], RegFile 1 ''c'')],
       [CreatedDir ''r/p'', CreatedDir ''r/p/q'', CreatedDir ''r/p/q/r'',
        CreatedFile ''r/p/q/r/f'', DeletedFile ''r/a/b.txt'', DeletedDir ''r/a''],
       [''T - INFO - [T] Created directory: r/p'', ''T - INFO - [T] Created directory: r/p/q'',
        ''T - INFO - [T] Created directory: r/p/q/r'', ''T - INFO - [T] Created file: r/p/q/r/f'',
        ''T - INFO - [T] Deleted file: r/a/b.txt'', ''T - INFO - [T] Deleted directory: r/a''])"
  by code_simp

theorem pass_ordering_witness:
  "wf_fs (disk (fresh fs_scenario))
   \<and> (\<exists>out. replicate_pass 5 ''s'' ''r'' (fresh fs_scenario) = Some out
          \<and> actions (final out) =
               [CreatedDir ''r/p'', CreatedDir ''r/p/q'', CreatedDir ''r/p/q/r'',
                CreatedFile ''r/p/q/r/f'', DeletedFile ''r/a/b.txt'', DeletedDir ''r/a'']
          \<and> creation_ordered (actions (final out))
          \<and> deletion_ordered (actions (final out))
          \<and> logfile (final out) =
               [''T - INFO - [T] Created directory: r/p'', ''T - INFO - [T] Created directory: r/p/q'',
                ''T - INFO - [T] Created directory: r/p/q/r'', ''T - INFO - [T] Created file: r/p/q/r/f'',
                ''T - INFO - [T] Deleted file: r/a/b.txt'', ''T - INFO - [T] Deleted directory: r/a''])"
proof -
  have wf: "wf_fs (disk (fresh fs_scenario))" by (simp add: fresh_def wf_scenario)
  from observe_Done [OF run_scenario] obtain st' where st':
    "replicate_pass 5 ''s'' ''r'' (fresh fs_scenario) = Some (Done st')"
    "actions st' = [CreatedDir ''r/p'', CreatedDir ''r/p/q'', CreatedDir ''r/p/q/r'',
                    CreatedFile ''r/p/q/r/f'', DeletedFile ''r/a/b.txt'', DeletedDir ''r/a'']"
    "logfile st' = [''T - INFO - [T] Created directory: r/p'', ''T - INFO - [T] Created directory: r/p/q'',
                ''T - INFO - [T] Created directory: r/p/q/r'', ''T - INFO - [T] Created file: r/p/q/r/f'',
                ''T - INFO - [T] Deleted file: r/a/b.txt'', ''T - INFO - [T] Deleted directory: r/a'']"
    by blast
  from pass_ordering [OF wf st'(1)] obtain new where
    "actions st' = actions (fresh fs_scenario) @ new" "creation_ordered new" "deletion_ordered new"
    by auto
  then have "creation_ordered (actions st')" "deletion_ordered (actions st')"
    by (simp_all add: fresh_def)
  with wf st' show ?thesis by simp
qed

text \<open>
  An empty source and a replica holding \<open>a/b.txt\<close>: the replica is empty after the pass,
  and the log shows the file deleted, then the directory.
\<close>

lemma run_scenario_A:
  "observe (replicate_pass 3 ''s'' ''r'' (fresh fs_scenario_A)) =
     Some (None, [([''s''], Directory 0), ([''r''], Directory 0)],
       [DeletedFile ''r/a/b.txt'', DeletedDir ''r/a''],
       [''T - INFO - [T] Deleted file: r/a/b.txt'', ''T - INFO - [T] Deleted directory: r/a''])"
  by code_simp

end
